theory Spec2Isabelle
  imports Main "HOL-Library.Word" "HOL-Library.AList"
begin

unbundle bit_operations_syntax

section \<open>Values of the host language\<close>

type_synonym byte = "8 word"
type_synonym int32 = "32 word"

text \<open>
  A JavaScript number, as far as the decoder computes one: an exact integer or NaN.
  An element read \<open>arr[i]\<close> of a typed array is a byte, or \<open>undefined\<close> outside the
  array; \<open>undefined\<close> is \<open>None\<close>.
\<close>

datatype number = Num int | NaN

text \<open>\<open>ToInt32\<close>, applied by \<open>&\<close>, \<open>|\<close> and \<open><<\<close> to their operands: \<open>undefined\<close> becomes 0.\<close>

definition ToInt32 :: "byte option \<Rightarrow> int32" where
  "ToInt32 r = (case r of None \<Rightarrow> 0 | Some b \<Rightarrow> ucast b)"

text \<open>\<open>ToNumber\<close>, applied by \<open>+\<close> and \<open><\<close>: \<open>undefined\<close> becomes NaN.\<close>

definition ToNumber :: "byte option \<Rightarrow> number" where
  "ToNumber r = (case r of None \<Rightarrow> NaN | Some b \<Rightarrow> Num (uint b))"

text \<open>\<open>x << n\<close> on 32-bit integers: only the low five bits of the shift count are used.\<close>

definition shl :: "int32 \<Rightarrow> nat \<Rightarrow> int32" where
  "shl x n = push_bit (n mod 32) x"

text \<open>The number that a 32-bit result of \<open>&\<close>, \<open>|\<close> or \<open><<\<close> denotes: it is signed.\<close>

definition int32_number :: "int32 \<Rightarrow> number" where
  "int32_number w = Num (sint w)"

definition js_add :: "number \<Rightarrow> number \<Rightarrow> number" where
  "js_add a b = (case (a, b) of (Num x, Num y) \<Rightarrow> Num (x + y) | _ \<Rightarrow> NaN)"

text \<open>\<open>x >>> 0\<close> (\<open>ToUint32\<close>): an integer modulo \<open>2^32\<close>, and 0 for NaN.\<close>

definition ToUint32 :: "number \<Rightarrow> int" where
  "ToUint32 x = (case x of Num k \<Rightarrow> k mod 2 ^ 32 | NaN \<Rightarrow> 0)"

text \<open>\<open>r < c\<close> for an element read \<open>r\<close>: false when \<open>r\<close> is \<open>undefined\<close> (NaN compares false).\<close>

definition js_less :: "byte option \<Rightarrow> int \<Rightarrow> bool" where
  "js_less r c = (case r of None \<Rightarrow> False | Some b \<Rightarrow> uint b < c)"

section \<open>Constants of binary.js\<close>

text \<open>
  Modelled from the spec: the constants \<open>BIT7\<close>, \<open>BIT8\<close>, \<open>BITS6\<close> and \<open>BITS7\<close> of
  binary.js, which is not among the sources. The specification gives the sign bit as
  \<open>0x40\<close>, the continuation flag as \<open>0x80\<close>, the mask of the first byte of a signed
  integer as \<open>0x3F\<close>, and the payload of every other byte as its low 7 bits.
\<close>

definition BIT7 :: int32 where "BIT7 = 0x40"
definition BIT8 :: int32 where "BIT8 = 0x80"
definition BITS6 :: int32 where "BITS6 = 0x3F"
definition BITS7 :: int32 where "BITS7 = 0x7F"

section \<open>Typed arrays and the decoder\<close>

text \<open>
  A \<open>Uint8Array\<close> is a window on an \<open>ArrayBuffer\<close>. The record holds the bytes of the
  buffer in three parts: those before the window, those in it, and those after it; so
  \<open>arr.buffer\<close>, \<open>arr.byteOffset\<close> and \<open>arr.length\<close> are all determined, and every value of
  the record is a well-formed view.
\<close>

record uint8array =
  lead :: "byte list"
  elems :: "byte list"
  trail :: "byte list"

definition buffer :: "uint8array \<Rightarrow> byte list" where
  "buffer a = lead a @ elems a @ trail a"

definition byteOffset :: "uint8array \<Rightarrow> int" where
  "byteOffset a = int (length (lead a))"

definition length_of :: "uint8array \<Rightarrow> int" where
  "length_of a = int (length (elems a))"

text \<open>\<open>a[i]\<close>: \<open>undefined\<close> for an index outside the array.\<close>

definition at :: "uint8array \<Rightarrow> int \<Rightarrow> byte option" where
  "at a i = (if 0 \<le> i \<and> i < length_of a then Some (elems a ! nat i) else None)"

datatype error = IntegerOutOfRange | BufferUnderrun | UnknownTag | InvalidUtf8

record decoder =
  arr :: uint8array
  pos :: int

text \<open>
  A function of the decoder mutates the decoder and returns or throws. Its model returns
  the thrown error or the value, together with the decoder as the call leaves it: what
  was written to \<open>decoder.pos\<close> before a \<open>throw\<close> stays written.
\<close>

type_synonym 'a result = "(error + 'a) \<times> decoder"

definition createDecoder :: "uint8array \<Rightarrow> decoder" where
  "createDecoder uint8Array = \<lparr>arr = uint8Array, pos = 0\<rparr>"

definition hasContent :: "decoder \<Rightarrow> bool" where
  "hasContent d = (pos d \<noteq> length_of (arr d))"

definition clone :: "decoder \<Rightarrow> int option \<Rightarrow> decoder" where
  "clone d newPos =
     (createDecoder (arr d))\<lparr>pos := (case newPos of None \<Rightarrow> pos d | Some p \<Rightarrow> p)\<rparr>"

text \<open>
  Modelled from the spec: \<open>buffer.createUint8ArrayViewFromArrayBuffer\<close> of buffer.js, which
  is not among the sources. It makes a view of \<open>len\<close> bytes of the buffer from
  \<open>byteOffset\<close> on; reading past the end of the buffer is the fatal condition
  \<open>BufferUnderrun\<close> (the \<open>RangeError\<close> of the typed array constructor, which also
  refuses a negative offset or length).
\<close>

definition createUint8ArrayViewFromArrayBuffer ::
  "byte list \<Rightarrow> int \<Rightarrow> int \<Rightarrow> error + uint8array" where
  "createUint8ArrayViewFromArrayBuffer buf off len =
     (if off < 0 \<or> len < 0 \<or> int (length buf) < off + len then Inl BufferUnderrun
      else Inr \<lparr>lead = take (nat off) buf,
                elems = take (nat len) (drop (nat off) buf),
                trail = drop (nat off + nat len) buf\<rparr>)"

definition readUint8Array :: "decoder \<Rightarrow> int \<Rightarrow> uint8array result" where
  "readUint8Array d len =
     (case createUint8ArrayViewFromArrayBuffer (buffer (arr d)) (pos d + byteOffset (arr d)) len of
        Inl e \<Rightarrow> (Inl e, d)
      | Inr view \<Rightarrow> (Inr view, d\<lparr>pos := pos d + len\<rparr>))"

definition skip8 :: "decoder \<Rightarrow> int result" where
  "skip8 d = (Inr (pos d), d\<lparr>pos := pos d + 1\<rparr>)"

definition readUint8 :: "decoder \<Rightarrow> byte option result" where
  "readUint8 d = (Inr (at (arr d) (pos d)), d\<lparr>pos := pos d + 1\<rparr>)"

definition peekUint16 :: "decoder \<Rightarrow> number" where
  "peekUint16 d =
     js_add (ToNumber (at (arr d) (pos d)))
            (int32_number (shl (ToInt32 (at (arr d) (pos d + 1))) 8))"

definition readUint16 :: "decoder \<Rightarrow> number result" where
  "readUint16 d =
     (let uint = js_add (ToNumber (at (arr d) (pos d)))
                        (int32_number (shl (ToInt32 (at (arr d) (pos d + 1))) 8))
      in (Inr uint, d\<lparr>pos := pos d + 2\<rparr>))"

definition readUint32 :: "decoder \<Rightarrow> int result" where
  "readUint32 d =
     (let uint = ToUint32
           (js_add (js_add (js_add (ToNumber (at (arr d) (pos d)))
                                   (int32_number (shl (ToInt32 (at (arr d) (pos d + 1))) 8)))
                           (int32_number (shl (ToInt32 (at (arr d) (pos d + 2))) 16)))
                   (int32_number (shl (ToInt32 (at (arr d) (pos d + 3))) 24)))
      in (Inr uint, d\<lparr>pos := pos d + 4\<rparr>))"

definition peekUint8 :: "decoder \<Rightarrow> byte option" where
  "peekUint8 d = at (arr d) (pos d)"

definition peekUint32 :: "decoder \<Rightarrow> int" where
  "peekUint32 d = ToUint32
     (js_add (js_add (js_add (ToNumber (at (arr d) (pos d)))
                             (int32_number (shl (ToInt32 (at (arr d) (pos d + 1))) 8)))
                     (int32_number (shl (ToInt32 (at (arr d) (pos d + 2))) 16)))
             (int32_number (shl (ToInt32 (at (arr d) (pos d + 3))) 24)))"

section \<open>Variable-length integers\<close>

text \<open>
  The \<open>while (true)\<close> loop of \<open>readVarUint\<close>, from the state \<open>num\<close>, \<open>len\<close> it has at the
  head of an iteration. \<open>num\<close> is the result of \<open>|\<close>, a 32-bit integer.
\<close>

function readVarUint_loop :: "int32 \<Rightarrow> nat \<Rightarrow> decoder \<Rightarrow> int result" where
  "readVarUint_loop num len d =
     (if js_less (at (arr d) (pos d)) (uint BIT8)
      then (Inr (uint (num OR shl (ToInt32 (at (arr d) (pos d)) AND BITS7) len)),
            d\<lparr>pos := pos d + 1\<rparr>)
      else if len + 7 > 35 then (Inl IntegerOutOfRange, d\<lparr>pos := pos d + 1\<rparr>)
      else readVarUint_loop (num OR shl (ToInt32 (at (arr d) (pos d)) AND BITS7) len)
                            (len + 7) (d\<lparr>pos := pos d + 1\<rparr>))"
  by pat_completeness auto
termination
  by (relation "measure (\<lambda>(num, len, d). 36 - len)") auto

declare readVarUint_loop.simps [simp del]

definition readVarUint :: "decoder \<Rightarrow> int result" where
  "readVarUint d = readVarUint_loop 0 0 d"

text \<open>
  The loop of \<open>readVarInt\<close>; \<open>sign\<close> is 1 or \<open>-1\<close>, and \<open>sign * num\<close> reads \<open>num\<close> as signed.
  The product \<open>-1 * 0\<close> is the number \<open>-0\<close>, which equals 0 and is 0 here.
\<close>

function readVarInt_loop :: "int \<Rightarrow> int32 \<Rightarrow> nat \<Rightarrow> decoder \<Rightarrow> int result" where
  "readVarInt_loop sign num len d =
     (if js_less (at (arr d) (pos d)) (uint BIT8)
      then (Inr (sign * sint (num OR shl (ToInt32 (at (arr d) (pos d)) AND BITS7) len)),
            d\<lparr>pos := pos d + 1\<rparr>)
      else if len + 7 > 41 then (Inl IntegerOutOfRange, d\<lparr>pos := pos d + 1\<rparr>)
      else readVarInt_loop sign (num OR shl (ToInt32 (at (arr d) (pos d)) AND BITS7) len)
                           (len + 7) (d\<lparr>pos := pos d + 1\<rparr>))"
  by pat_completeness auto
termination
  by (relation "measure (\<lambda>(sign, num, len, d). 42 - len)") auto

declare readVarInt_loop.simps [simp del]

definition readVarInt :: "decoder \<Rightarrow> int result" where
  "readVarInt d =
     (let r = at (arr d) (pos d);
          d1 = d\<lparr>pos := pos d + 1\<rparr>;
          num = ToInt32 r AND BITS6;
          len = 6;
          sign = (if sint (ToInt32 r AND BIT7) > 0 then - 1 else 1)
      in if ToInt32 r AND BIT8 = 0 then (Inr (sign * sint num), d1)
         else readVarInt_loop sign num len d1)"

definition peekVarUint :: "decoder \<Rightarrow> int result" where
  "peekVarUint d =
     (case readVarUint d of
        (Inl e, d') \<Rightarrow> (Inl e, d')
      | (Inr s, d') \<Rightarrow> (Inr s, d'\<lparr>pos := pos d\<rparr>))"

definition peekVarInt :: "decoder \<Rightarrow> int result" where
  "peekVarInt d =
     (case readVarInt d of
        (Inl e, d') \<Rightarrow> (Inl e, d')
      | (Inr s, d') \<Rightarrow> (Inr s, d'\<lparr>pos := pos d\<rparr>))"

section \<open>Byte arrays and strings\<close>

definition readVarUint8Array :: "decoder \<Rightarrow> uint8array result" where
  "readVarUint8Array d =
     (case readVarUint d of
        (Inl e, d') \<Rightarrow> (Inl e, d')
      | (Inr len, d') \<Rightarrow> readUint8Array d' len)"

definition readTailAsUint8Array :: "decoder \<Rightarrow> uint8array result" where
  "readTailAsUint8Array d = readUint8Array d (length_of (arr d) - pos d)"

text \<open>
  A call \<open>f(g(decoder))\<close> of a function \<open>f\<close> that does not touch the decoder: when
  \<open>g\<close> throws, \<open>f\<close> is not called; when \<open>f\<close> throws, the decoder stays as \<open>g\<close> left it.
\<close>

definition and_then :: "'a result \<Rightarrow> ('a \<Rightarrow> error + 'b) \<Rightarrow> 'b result" where
  "and_then r f =
     (case r of
        (Inl e, d) \<Rightarrow> (Inl e, d)
      | (Inr x, d) \<Rightarrow> (case f x of Inl e \<Rightarrow> (Inl e, d) | Inr y \<Rightarrow> (Inr y, d)))"

text \<open>
  \<open>string.decodeUtf8\<close> of string.js is not among the sources, and the specification leaves
  its treatment of malformed input open. The readers of strings take it as the parameter
  \<open>decodeUtf8\<close>: it maps the bytes of a view to a string or throws.
\<close>

definition readVarString ::
  "(byte list \<Rightarrow> error + 's) \<Rightarrow> decoder \<Rightarrow> 's result" where
  "readVarString decodeUtf8 d = and_then (readVarUint8Array d) (\<lambda>view. decodeUtf8 (elems view))"

definition peekVarString ::
  "(byte list \<Rightarrow> error + 's) \<Rightarrow> decoder \<Rightarrow> 's result" where
  "peekVarString decodeUtf8 d =
     (case readVarString decodeUtf8 d of
        (Inl e, d') \<Rightarrow> (Inl e, d')
      | (Inr s, d') \<Rightarrow> (Inr s, d'\<lparr>pos := pos d\<rparr>))"

section \<open>Floats and 64-bit integers\<close>

text \<open>
  A \<open>DataView\<close> is a window on a buffer like a typed array, and its constructor refuses
  the same arguments with the same \<open>RangeError\<close>. A float is kept as the IEEE-754 bit
  pattern that \<open>getFloat32(0)\<close> or \<open>getFloat64(0)\<close> reads, most significant byte first;
  a getter throws when the view is shorter than the value.
\<close>

type_synonym dataview = uint8array

definition new_DataView :: "byte list \<Rightarrow> int \<Rightarrow> int \<Rightarrow> error + dataview" where
  "new_DataView buf off len =
     (if off < 0 \<or> len < 0 \<or> int (length buf) < off + len then Inl BufferUnderrun
      else Inr \<lparr>lead = take (nat off) buf,
                elems = take (nat len) (drop (nat off) buf),
                trail = drop (nat off + nat len) buf\<rparr>)"

definition big_endian :: "byte list \<Rightarrow> int" where
  "big_endian bs = foldl (\<lambda>acc b. acc * 256 + uint b) 0 bs"

definition getFloat32 :: "dataview \<Rightarrow> error + 32 word" where
  "getFloat32 dv =
     (if length (elems dv) < 4 then Inl BufferUnderrun
      else Inr (word_of_int (big_endian (take 4 (elems dv)))))"

definition getFloat64 :: "dataview \<Rightarrow> error + 64 word" where
  "getFloat64 dv =
     (if length (elems dv) < 8 then Inl BufferUnderrun
      else Inr (word_of_int (big_endian (take 8 (elems dv)))))"

definition getBigInt64 :: "dataview \<Rightarrow> error + int" where
  "getBigInt64 dv =
     (if length (elems dv) < 8 then Inl BufferUnderrun
      else Inr (sint (word_of_int (big_endian (take 8 (elems dv))) :: 64 word)))"

definition getBigUint64 :: "dataview \<Rightarrow> error + int" where
  "getBigUint64 dv =
     (if length (elems dv) < 8 then Inl BufferUnderrun
      else Inr (uint (word_of_int (big_endian (take 8 (elems dv))) :: 64 word)))"

definition readFromDataView :: "decoder \<Rightarrow> int \<Rightarrow> dataview result" where
  "readFromDataView d len =
     (case new_DataView (buffer (arr d)) (byteOffset (arr d) + pos d) len of
        Inl e \<Rightarrow> (Inl e, d)
      | Inr dv \<Rightarrow> (Inr dv, d\<lparr>pos := pos d + len\<rparr>))"

definition readFloat32 :: "decoder \<Rightarrow> 32 word result" where
  "readFloat32 d = and_then (readFromDataView d 4) getFloat32"

definition readFloat64 :: "decoder \<Rightarrow> 64 word result" where
  "readFloat64 d = and_then (readFromDataView d 8) getFloat64"

definition readBigInt64 :: "decoder \<Rightarrow> int result" where
  "readBigInt64 d = and_then (readFromDataView d 8) getBigInt64"

definition readBigUint64 :: "decoder \<Rightarrow> int result" where
  "readBigUint64 d = and_then (readFromDataView d 8) getBigUint64"

section \<open>Tagged values\<close>

text \<open>
  What \<open>readAny\<close> returns. The objects of the host language are values of a type \<open>'o\<close>
  that the model does not fix.
\<close>

datatype ('s, 'o) any =
    AUndefined
  | ANull
  | AInteger int
  | AFloat32 "32 word"
  | AFloat64 "64 word"
  | ABigInt int
  | ABoolean bool
  | AString 's
  | AObject 'o
  | AArray "('s, 'o) any list"
  | AUint8Array uint8array

text \<open>
  What the decoder takes from outside the module. \<open>decode_utf8\<close> is \<open>string.decodeUtf8\<close>.
  \<open>new_object\<close> is the object \<open>{}\<close>, and \<open>set_property obj key value\<close> is the object after
  the assignment \<open>obj[key] = value\<close>, or what the assignment throws: which own properties
  the object then has, in which order they are enumerated, and what the key
  \<open>__proto__\<close> does, is the host language's matter and is not fixed here.
\<close>

record ('s, 'o) host =
  decode_utf8 :: "byte list \<Rightarrow> error + 's"
  new_object :: 'o
  set_property :: "'o \<Rightarrow> 's \<Rightarrow> ('s, 'o) any \<Rightarrow> error + 'o"

text \<open>
  \<open>readAny\<close> and the two functions of its table that call it recurse as deep as the
  values nest. The model of \<open>readAny\<close> counts the depth down from \<open>fuel\<close> and is \<open>None\<close>
  when it is used up; the table takes the \<open>readAny\<close> it calls as a parameter. A \<open>for\<close> loop
  over \<open>i < len\<close> is a recursion on the number of iterations left.
\<close>

type_synonym ('s, 'o) reader = "decoder \<Rightarrow> ('s, 'o) any result option"

primrec readObject_loop ::
  "('s, 'o) host \<Rightarrow> ('s, 'o) reader \<Rightarrow> nat \<Rightarrow> 'o \<Rightarrow> ('s, 'o) reader" where
  "readObject_loop h readAny 0 obj d = Some (Inr (AObject obj), d)"
| "readObject_loop h readAny (Suc n) obj d =
     (case readVarString (decode_utf8 h) d of
        (Inl e, d1) \<Rightarrow> Some (Inl e, d1)
      | (Inr key, d1) \<Rightarrow>
          (case readAny d1 of
             None \<Rightarrow> None
           | Some (Inl e, d2) \<Rightarrow> Some (Inl e, d2)
           | Some (Inr v, d2) \<Rightarrow>
               (case set_property h obj key v of
                  Inl e \<Rightarrow> Some (Inl e, d2)
                | Inr obj' \<Rightarrow> readObject_loop h readAny n obj' d2)))"

primrec readArray_loop :: "('s, 'o) reader \<Rightarrow> nat \<Rightarrow> ('s, 'o) any list \<Rightarrow> ('s, 'o) reader" where
  "readArray_loop readAny 0 xs d = Some (Inr (AArray xs), d)"
| "readArray_loop readAny (Suc n) xs d =
     (case readAny d of
        None \<Rightarrow> None
      | Some (Inl e, d1) \<Rightarrow> Some (Inl e, d1)
      | Some (Inr v, d1) \<Rightarrow> readArray_loop readAny n (xs @ [v]) d1)"

definition readAnyLookupTable ::
  "('s, 'o) host \<Rightarrow> ('s, 'o) reader \<Rightarrow> ('s, 'o) reader list" where
  "readAnyLookupTable h readAny =
     [\<lambda>d. Some (Inr AUndefined, d),
      \<lambda>d. Some (Inr ANull, d),
      \<lambda>d. Some (and_then (readVarInt d) (\<lambda>x. Inr (AInteger x))),
      \<lambda>d. Some (and_then (readFloat32 d) (\<lambda>x. Inr (AFloat32 x))),
      \<lambda>d. Some (and_then (readFloat64 d) (\<lambda>x. Inr (AFloat64 x))),
      \<lambda>d. Some (and_then (readBigInt64 d) (\<lambda>x. Inr (ABigInt x))),
      \<lambda>d. Some (Inr (ABoolean False), d),
      \<lambda>d. Some (Inr (ABoolean True), d),
      \<lambda>d. Some (and_then (readVarString (decode_utf8 h) d) (\<lambda>x. Inr (AString x))),
      \<lambda>d. (case readVarUint d of
              (Inl e, d1) \<Rightarrow> Some (Inl e, d1)
            | (Inr len, d1) \<Rightarrow> readObject_loop h readAny (nat len) (new_object h) d1),
      \<lambda>d. (case readVarUint d of
              (Inl e, d1) \<Rightarrow> Some (Inl e, d1)
            | (Inr len, d1) \<Rightarrow> readArray_loop readAny (nat len) [] d1),
      \<lambda>d. Some (and_then (readVarUint8Array d) (\<lambda>x. Inr (AUint8Array x)))]"

text \<open>\<open>c - r\<close> for an element read \<open>r\<close>: NaN when \<open>r\<close> is \<open>undefined\<close>.\<close>

definition js_sub :: "int \<Rightarrow> byte option \<Rightarrow> number" where
  "js_sub c r = (case r of None \<Rightarrow> NaN | Some b \<Rightarrow> Num (c - uint b))"

text \<open>\<open>table[i]\<close> on an array of functions: \<open>undefined\<close> unless \<open>i\<close> is an index of the array.\<close>

definition lookup :: "'a list \<Rightarrow> number \<Rightarrow> 'a option" where
  "lookup table i =
     (case i of
        NaN \<Rightarrow> None
      | Num k \<Rightarrow> if 0 \<le> k \<and> k < int (length table) then Some (table ! nat k) else None)"

text \<open>
  Calling \<open>undefined\<close> throws a \<open>TypeError\<close>; it is the condition that the specification
  names \<open>UnknownTag\<close>. The tag byte has been read by then.
\<close>

primrec readAny :: "('s, 'o) host \<Rightarrow> nat \<Rightarrow> ('s, 'o) reader" where
  "readAny h 0 = (\<lambda>d. None)"
| "readAny h (Suc fuel) =
     (\<lambda>d. case readUint8 d of
            (Inl e, d1) \<Rightarrow> Some (Inl e, d1)
          | (Inr tag, d1) \<Rightarrow>
              (case lookup (readAnyLookupTable h (readAny h fuel))
                           (js_sub 127 tag) of
                 None \<Rightarrow> Some (Inl UnknownTag, d1)
               | Some f \<Rightarrow> f d1))"

section \<open>Sequences of operations\<close>

text \<open>A later state of the same decoder: the same array, and a position not before.\<close>

definition advanced :: "decoder \<Rightarrow> decoder \<Rightarrow> bool" where
  "advanced d d' = (arr d' = arr d \<and> pos d \<le> pos d')"

text \<open>
  The operations of the module on one decoder, and the decoder that each leaves behind,
  whether it returns or throws. \<open>Clone\<close> goes on with the clone. \<open>ReadAny\<close> runs with
  more fuel than there are bytes left.
\<close>

datatype op =
    Skip8 | ReadUint8 | ReadUint16 | ReadUint32
  | PeekUint8 | PeekUint16 | PeekUint32
  | ReadVarUint | ReadVarInt | PeekVarUint | PeekVarInt
  | ReadUint8Array int | ReadVarUint8Array | ReadTailAsUint8Array
  | ReadVarString | PeekVarString
  | ReadFloat32 | ReadFloat64 | ReadBigInt64 | ReadBigUint64
  | ReadAny
  | HasContent
  | Clone "int option"

definition enough_fuel :: "decoder \<Rightarrow> nat" where
  "enough_fuel d = Suc (nat (length_of (arr d) - pos d))"

fun run_op :: "('s, 'o) host \<Rightarrow> decoder \<Rightarrow> op \<Rightarrow> decoder" where
  "run_op u d Skip8 = snd (skip8 d)"
| "run_op u d ReadUint8 = snd (readUint8 d)"
| "run_op u d ReadUint16 = snd (readUint16 d)"
| "run_op u d ReadUint32 = snd (readUint32 d)"
| "run_op u d PeekUint8 = d"
| "run_op u d PeekUint16 = d"
| "run_op u d PeekUint32 = d"
| "run_op u d ReadVarUint = snd (readVarUint d)"
| "run_op u d ReadVarInt = snd (readVarInt d)"
| "run_op u d PeekVarUint = snd (peekVarUint d)"
| "run_op u d PeekVarInt = snd (peekVarInt d)"
| "run_op u d (ReadUint8Array len) = snd (readUint8Array d len)"
| "run_op u d ReadVarUint8Array = snd (readVarUint8Array d)"
| "run_op u d ReadTailAsUint8Array = snd (readTailAsUint8Array d)"
| "run_op u d ReadVarString = snd (readVarString (decode_utf8 u) d)"
| "run_op u d PeekVarString = snd (peekVarString (decode_utf8 u) d)"
| "run_op u d ReadFloat32 = snd (readFloat32 d)"
| "run_op u d ReadFloat64 = snd (readFloat64 d)"
| "run_op u d ReadBigInt64 = snd (readBigInt64 d)"
| "run_op u d ReadBigUint64 = snd (readBigUint64 d)"
| "run_op u d ReadAny =
     (case readAny u (enough_fuel d) d of None \<Rightarrow> d | Some (r, d') \<Rightarrow> d')"
| "run_op u d HasContent = d"
| "run_op u d (Clone newPos) = clone d newPos"

definition run_ops :: "('s, 'o) host \<Rightarrow> decoder \<Rightarrow> op list \<Rightarrow> decoder" where
  "run_ops u d ops = foldl (run_op u) d ops"

text \<open>
  For examples: the view whose buffer holds nothing but its bytes, and a \<open>decodeUtf8\<close> for
  bytes below 128, which throws on any other byte.
\<close>

definition view_of :: "byte list \<Rightarrow> uint8array" where
  "view_of bs = \<lparr>lead = [], elems = bs, trail = []\<rparr>"

definition ascii :: "byte list \<Rightarrow> error + string" where
  "ascii bs =
     (if list_all (\<lambda>b. uint b < 128) bs then Inr (map (\<lambda>b. char_of (uint b)) bs)
      else Inl InvalidUtf8)"

text \<open>
  For examples as well: a host whose objects are the lists of their properties in the
  order in which they were first set, and whose assignments never throw. The host
  language treats a key so unless the key is \<open>__proto__\<close> or an array index; the examples
  have no such key.
\<close>

datatype 's plain = Plain "('s \<times> ('s, 's plain) any) list"

definition plain_set ::
  "'s plain \<Rightarrow> 's \<Rightarrow> ('s, 's plain) any \<Rightarrow> error + 's plain" where
  "plain_set obj key v = (case obj of Plain kvs \<Rightarrow> Inr (Plain (AList.update key v kvs)))"

definition plain_host :: "(string, string plain) host" where
  "plain_host = \<lparr>decode_utf8 = ascii, new_object = Plain [], set_property = plain_set\<rparr>"

section \<open>The wire format as the specification words it\<close>

text \<open>
  The continuation flag of a byte, and the value of a sequence of bytes read in base 128
  with the least significant byte first: every byte gives its low 7 bits, shifted by 7
  bits more than the byte before it. The integers here are unbounded.
\<close>

definition continues :: "byte \<Rightarrow> bool" where
  "continues b = (b AND 0x80 \<noteq> 0)"

fun spec_varUint :: "byte list \<Rightarrow> int" where
  "spec_varUint [] = 0"
| "spec_varUint (b # bs) = uint (b AND 0x7F) OR push_bit 7 (spec_varUint bs)"

text \<open>
  A signed integer: the bit \<open>0x40\<close> of the first byte is the sign, its low 6 bits are the
  low bits of the magnitude, and the bytes after it continue the magnitude from bit 6.
\<close>

definition spec_sign :: "byte \<Rightarrow> int" where
  "spec_sign b = (if b AND 0x40 \<noteq> 0 then - 1 else 1)"

fun spec_magnitude :: "byte list \<Rightarrow> int" where
  "spec_magnitude [] = 0"
| "spec_magnitude (b # bs) = uint (b AND 0x3F) OR push_bit 6 (spec_varUint bs)"

definition spec_varInt :: "byte list \<Rightarrow> int" where
  "spec_varInt bs = (case bs of [] \<Rightarrow> 0 | b # _ \<Rightarrow> spec_sign b * spec_magnitude bs)"

text \<open>
  A count followed by that many entries in order: \<open>spec_repeat n entry\<close> reads \<open>n\<close> entries
  one after the other and returns them in the order read, or stops at the first that
  throws. An entry of a record is a string and a value.
\<close>

fun spec_repeat ::
  "nat \<Rightarrow> (decoder \<Rightarrow> 'a result option) \<Rightarrow> decoder \<Rightarrow> 'a list result option" where
  "spec_repeat 0 entry d = Some (Inr [], d)"
| "spec_repeat (Suc n) entry d =
     (case entry d of
        None \<Rightarrow> None
      | Some (Inl e, d1) \<Rightarrow> Some (Inl e, d1)
      | Some (Inr x, d1) \<Rightarrow>
          (case spec_repeat n entry d1 of
             None \<Rightarrow> None
           | Some (Inl e, d2) \<Rightarrow> Some (Inl e, d2)
           | Some (Inr xs, d2) \<Rightarrow> Some (Inr (x # xs), d2)))"

definition spec_entry ::
  "(byte list \<Rightarrow> error + 's) \<Rightarrow> ('s, 'o) reader \<Rightarrow> decoder \<Rightarrow> ('s \<times> ('s, 'o) any) result option" where
  "spec_entry decodeUtf8 read_value d =
     (case readVarString decodeUtf8 d of
        (Inl e, d1) \<Rightarrow> Some (Inl e, d1)
      | (Inr key, d1) \<Rightarrow>
          (case read_value d1 of
             None \<Rightarrow> None
           | Some (Inl e, d2) \<Rightarrow> Some (Inl e, d2)
           | Some (Inr v, d2) \<Rightarrow> Some (Inr (key, v), d2)))"

text \<open>
  A count followed by that many entries, each of which is put into what the entries
  before it have built: \<open>spec_fold n entry acc\<close> runs \<open>entry\<close> \<open>n\<close> times, one after the
  other, from \<open>acc\<close>, or stops at the first that throws. An entry of a record is read and
  then assigned to the record.
\<close>

fun spec_fold ::
  "nat \<Rightarrow> ('a \<Rightarrow> decoder \<Rightarrow> 'a result option) \<Rightarrow> 'a \<Rightarrow> decoder \<Rightarrow> 'a result option" where
  "spec_fold 0 entry acc d = Some (Inr acc, d)"
| "spec_fold (Suc n) entry acc d =
     (case entry acc d of
        None \<Rightarrow> None
      | Some (Inl e, d1) \<Rightarrow> Some (Inl e, d1)
      | Some (Inr acc1, d1) \<Rightarrow> spec_fold n entry acc1 d1)"

definition spec_property ::
  "('s, 'o) host \<Rightarrow> ('s, 'o) reader \<Rightarrow> 'o \<Rightarrow> decoder \<Rightarrow> 'o result option" where
  "spec_property h read_value obj d =
     (case spec_entry (decode_utf8 h) read_value d of
        None \<Rightarrow> None
      | Some (Inl e, d1) \<Rightarrow> Some (Inl e, d1)
      | Some (Inr (key, v), d1) \<Rightarrow> Some (and_then (Inr v, d1) (set_property h obj key)))"

text \<open>The value that a reader returns, passed through \<open>f\<close>.\<close>

definition returning :: "('a \<Rightarrow> 'b) \<Rightarrow> 'a result option \<Rightarrow> 'b result option" where
  "returning f r =
     (case r of
        None \<Rightarrow> None
      | Some (Inl e, d) \<Rightarrow> Some (Inl e, d)
      | Some (Inr x, d) \<Rightarrow> Some (Inr (f x), d))"

section \<open>Facts about the host language\<close>

lemma at_append:
  "elems a = xs @ b # ys \<Longrightarrow> at a (int (length xs)) = Some b"
  by (simp add: at_def length_of_def)

lemma at_append_plus:
  "elems a = xs @ bs @ ys \<Longrightarrow> i < length bs \<Longrightarrow> at a (int (length xs) + int i) = Some (bs ! i)"
  by (simp add: at_def length_of_def nat_add_distrib nth_append)

lemma at_outside: "length_of a \<le> i \<Longrightarrow> at a i = None"
  by (simp add: at_def)

lemma uint_byte_bound: "uint (b::byte) < 256"
  using uint_bounded[of b] by simp

lemma uint_ucast_byte: "uint (ucast (b::byte) :: int32) = uint b"
  using uint_byte_bound[of b] by (simp add: unsigned_ucast_eq take_bit_eq_mod)

lemma uint_shl_ucast:
  assumes n: "n \<le> 24"
  shows "uint (shl (ucast (b::byte)) n :: int32) = uint b * 2 ^ n"
proof -
  have "(2::int) ^ n \<le> 2 ^ 24" using n by (rule power_increasing) simp
  moreover have "uint b \<le> 255" using uint_byte_bound[of b] by simp
  ultimately have "uint b * 2 ^ n \<le> 255 * 2 ^ 24"
    by (intro mult_mono) simp_all
  then have lt: "uint b * 2 ^ n < 2 ^ 32" by simp
  have "uint (push_bit n (ucast b :: int32)) = take_bit 32 (push_bit n (uint (ucast b :: int32)))"
    by (simp add: unsigned_push_bit_eq)
  then show ?thesis using lt n
    by (simp add: shl_def uint_ucast_byte push_bit_eq_mult take_bit_eq_mod)
qed

lemma sint_mod: "sint (w::int32) mod 2 ^ 32 = uint w"
  using uint_sint[of w] by (simp add: take_bit_eq_mod)

lemma add_sint_mod: "(k + sint (w::int32)) mod 2 ^ 32 = (k + uint w) mod 2 ^ 32"
  by (metis mod_add_right_eq sint_mod)

lemma sint_small: "uint (w::int32) < 2 ^ 31 \<Longrightarrow> sint w = uint w"
proof -
  assume "uint w < 2 ^ 31"
  moreover have "- (2 ^ 31) \<le> uint w"
    by (rule order_trans[OF _ uint_ge_0]) simp
  ultimately have "signed_take_bit 31 (uint w) = uint w"
    by (rule signed_take_bit_int_eq_self[rotated])
  then show ?thesis by (simp add: sint_uint)
qed

lemma sint_shl_ucast:
  assumes n: "n \<le> 16"
  shows "sint (shl (ucast (b::byte)) n :: int32) = uint b * 2 ^ n"
proof -
  have "(2::int) ^ n \<le> 2 ^ 16" using n by (rule power_increasing) simp
  moreover have "uint b \<le> 255" using uint_byte_bound[of b] by simp
  ultimately have "uint b * 2 ^ n \<le> 255 * 2 ^ 16"
    by (intro mult_mono) simp_all
  then have "uint b * 2 ^ n < 2 ^ 31" by simp
  then show ?thesis using n by (simp add: sint_small uint_shl_ucast)
qed

section \<open>Variable-length integers: the loops\<close>

lemma continues_iff: "continues b \<longleftrightarrow> 128 \<le> uint b"
proof -
  have "b AND 0x80 = 0 \<longleftrightarrow> \<not> bit b 7"
    using and_exp_eq_0_iff_not_bit[of b 7] by simp
  also have "\<dots> \<longleftrightarrow> \<not> bit (uint b) 7"
    by (simp add: bit_uint_iff)
  also have "\<dots> \<longleftrightarrow> uint b < 128"
  proof -
    have "0 \<le> k \<Longrightarrow> k < 256 \<Longrightarrow> even (k div 128) = (k < 128)" for k :: int
      by presburger
    from this[of "uint b"] show ?thesis
      using uint_byte_bound[of b] by (simp add: bit_iff_odd_drop_bit drop_bit_eq_div)
  qed
  finally show ?thesis by (auto simp: continues_def)
qed

lemma js_less_BIT8: "js_less (Some b) (uint BIT8) \<longleftrightarrow> \<not> continues b"
  by (auto simp: js_less_def BIT8_def continues_iff)

lemma payload_word:
  "ToInt32 (Some b) AND BITS7 = word_of_int (uint (b AND 0x7F))"
  by (rule bit_word_eqI) (auto simp: ToInt32_def BITS7_def bit_simps dest: bit_imp_le_length)

lemma shl_small: "len < 32 \<Longrightarrow> shl x len = push_bit len x"
  by (simp add: shl_def)

lemma word_of_int_or_push:
  "(word_of_int (a OR push_bit 7 v) :: int32) = word_of_int a OR push_bit 7 (word_of_int v)"
  by (rule bit_word_eqI) (auto simp: bit_simps)

lemma readVarUint_loop_decodes:
  assumes "elems (arr d) = xs @ cs @ t # ys" and "pos d = int (length xs)"
    and "\<forall>c\<in>set cs. continues c" and "\<not> continues t"
    and "len + 7 * length cs \<le> 28"
  shows "readVarUint_loop num len d =
           (Inr (uint (num OR push_bit len (word_of_int (spec_varUint (cs @ [t])) :: int32))),
            d\<lparr>pos := pos d + int (length cs) + 1\<rparr>)"
  using assms
proof (induction cs arbitrary: xs num len d)
  case Nil
  then have a: "at (arr d) (pos d) = Some t"
    using at_append[of "arr d" xs t ys] by simp
  from Nil have "len < 32" by simp
  then show ?case using Nil(4)
    by (subst readVarUint_loop.simps)
       (simp add: a js_less_BIT8 payload_word shl_small)
next
  case (Cons c cs)
  then have a: "at (arr d) (pos d) = Some c"
    using at_append[of "arr d" xs c "cs @ t # ys"] by simp
  from Cons.prems have c: "continues c" and len: "len < 32" "\<not> 35 < len + 7" by simp_all
  let ?d1 = "d\<lparr>pos := pos d + 1\<rparr>"
  let ?num1 = "num OR push_bit len (word_of_int (uint (c AND 0x7F)))"
  have ih: "readVarUint_loop ?num1 (len + 7) ?d1 =
      (Inr (uint (?num1 OR push_bit (len + 7) (word_of_int (spec_varUint (cs @ [t])) :: int32))),
       ?d1\<lparr>pos := pos ?d1 + int (length cs) + 1\<rparr>)"
    using Cons.prems by (intro Cons.IH[of ?d1 "xs @ [c]"]) simp_all
  have "readVarUint_loop num len d = readVarUint_loop ?num1 (len + 7) ?d1"
    using c len by (subst readVarUint_loop.simps) (simp add: a js_less_BIT8 payload_word shl_small)
  also note ih
  finally show ?case
    by (simp add: word_of_int_or_push or.assoc add.commute)
qed

lemma readVarUint_loop_step:
  "\<not> js_less (at (arr d) (pos d)) (uint BIT8) \<Longrightarrow> len + 7 \<le> 35 \<Longrightarrow>
   readVarUint_loop num len d =
     readVarUint_loop (num OR shl (ToInt32 (at (arr d) (pos d)) AND BITS7) len) (len + 7)
       (d\<lparr>pos := pos d + 1\<rparr>)"
  by (subst readVarUint_loop.simps) simp

lemma readVarUint_loop_throw:
  "\<not> js_less (at (arr d) (pos d)) (uint BIT8) \<Longrightarrow> 35 < len + 7 \<Longrightarrow>
   readVarUint_loop num len d = (Inl IntegerOutOfRange, d\<lparr>pos := pos d + 1\<rparr>)"
  by (subst readVarUint_loop.simps) simp

lemma readVarUint_six_reads:
  assumes "\<forall>i<6. \<not> js_less (at (arr d) (pos d + int i)) (uint BIT8)"
  shows "readVarUint d = (Inl IntegerOutOfRange, d\<lparr>pos := pos d + 6\<rparr>)"
proof -
  have r: "\<not> js_less (at (arr d) (pos d)) (uint BIT8)"
    "\<not> js_less (at (arr d) (pos d + 1)) (uint BIT8)"
    "\<not> js_less (at (arr d) (pos d + 2)) (uint BIT8)"
    "\<not> js_less (at (arr d) (pos d + 3)) (uint BIT8)"
    "\<not> js_less (at (arr d) (pos d + 4)) (uint BIT8)"
    "\<not> js_less (at (arr d) (pos d + 5)) (uint BIT8)"
    using assms[rule_format, of 0] assms[rule_format, of 1] assms[rule_format, of 2]
      assms[rule_format, of 3] assms[rule_format, of 4] assms[rule_format, of 5]
    by simp_all
  have r': "\<not> js_less (at (arr d) (1 + pos d)) (uint BIT8)"
    "\<not> js_less (at (arr d) (2 + pos d)) (uint BIT8)"
    "\<not> js_less (at (arr d) (3 + pos d)) (uint BIT8)"
    "\<not> js_less (at (arr d) (4 + pos d)) (uint BIT8)"
    "\<not> js_less (at (arr d) (5 + pos d)) (uint BIT8)"
    using r by (simp_all add: add.commute)
  show ?thesis
    unfolding readVarUint_def
    apply (subst readVarUint_loop_step; simp add: r r')
    apply (subst readVarUint_loop_step; simp add: r r')
    apply (subst readVarUint_loop_step; simp add: r r')
    apply (subst readVarUint_loop_step; simp add: r r')
    apply (subst readVarUint_loop_step; simp add: r r')
    apply (subst readVarUint_loop_throw; simp add: r r')
    done
qed

lemma bits_left_41: "len \<le> 34 \<Longrightarrow> (41::nat) - len = (34 - len) + 7"
  by arith

lemma bytes_left_41: "len \<le> 34 \<Longrightarrow> ((41::nat) - len) div 7 = Suc ((34 - len) div 7)"
  by (subst bits_left_41) simp_all

lemma readVarInt_loop_bound:
  "arr (snd (readVarInt_loop sign num len d)) = arr d
   \<and> pos d + 1 \<le> pos (snd (readVarInt_loop sign num len d))
   \<and> pos (snd (readVarInt_loop sign num len d)) \<le> pos d + 1 + int ((41 - len) div 7)"
proof (induction sign num len d rule: readVarInt_loop.induct)
  case (1 sign num len d)
  let ?r = "at (arr d) (pos d)"
  show ?case
  proof (cases "js_less ?r (uint BIT8) \<or> len + 7 > 41")
    case True
    then have "snd (readVarInt_loop sign num len d) = d\<lparr>pos := pos d + 1\<rparr>"
      by (subst readVarInt_loop.simps) auto
    then show ?thesis by simp
  next
    case False
    then have "len \<le> 34" by simp
    then have k: "int ((41 - (len + 7)) div 7) + 1 = int ((41 - len) div 7)"
      by (simp add: bytes_left_41)
    have s: "readVarInt_loop sign num len d =
       readVarInt_loop sign (num OR shl (ToInt32 ?r AND BITS7) len) (len + 7) (d\<lparr>pos := pos d + 1\<rparr>)"
      using False by (subst readVarInt_loop.simps) simp
    have "arr (snd (readVarInt_loop sign num len d)) = arr d
      \<and> pos d + 1 + 1 \<le> pos (snd (readVarInt_loop sign num len d))
      \<and> pos (snd (readVarInt_loop sign num len d)) \<le> pos d + 1 + 1 + int ((41 - (len + 7)) div 7)"
      using "1.IH" False unfolding s by simp
    with k show ?thesis by linarith
  qed
qed

lemma readVarInt_bound:
  "arr (snd (readVarInt d)) = arr d
   \<and> pos d + 1 \<le> pos (snd (readVarInt d))
   \<and> pos (snd (readVarInt d)) \<le> pos d + 7"
  using readVarInt_loop_bound[of "if 0 < sint (ToInt32 (at (arr d) (pos d)) AND BIT7) then - 1 else 1"
      "ToInt32 (at (arr d) (pos d)) AND BITS6" 6 "d\<lparr>pos := pos d + 1\<rparr>"]
  by (simp add: readVarInt_def Let_def)

lemma readVarInt_loop_error:
  "fst (readVarInt_loop sign num len d) = Inl e \<Longrightarrow>
   e = IntegerOutOfRange \<and>
   pos (snd (readVarInt_loop sign num len d)) = pos d + 1 + int ((41 - len) div 7)"
proof (induction sign num len d rule: readVarInt_loop.induct)
  case (1 sign num len d)
  let ?r = "at (arr d) (pos d)"
  show ?case
  proof (cases "js_less ?r (uint BIT8) \<or> len + 7 > 41")
    case True
    then show ?thesis using "1.prems"
      by (subst (asm) readVarInt_loop.simps, subst readVarInt_loop.simps)
         (auto split: if_splits)
  next
    case False
    then have "len \<le> 34" by simp
    then have k: "int ((41 - (len + 7)) div 7) + 1 = int ((41 - len) div 7)"
      by (simp add: bytes_left_41)
    have s: "readVarInt_loop sign num len d =
       readVarInt_loop sign (num OR shl (ToInt32 ?r AND BITS7) len) (len + 7) (d\<lparr>pos := pos d + 1\<rparr>)"
      using False by (subst readVarInt_loop.simps) simp
    have "e = IntegerOutOfRange \<and> pos (snd (readVarInt_loop sign num len d))
       = pos d + 1 + 1 + int ((41 - (len + 7)) div 7)"
      using "1.IH" False "1.prems" unfolding s by simp
    with k show ?thesis by linarith
  qed
qed

lemma readVarInt_error:
  assumes "fst (readVarInt d) = Inl e"
  shows "e = IntegerOutOfRange \<and> pos (snd (readVarInt d)) = pos d + 7"
proof (cases "ToInt32 (at (arr d) (pos d)) AND BIT8 = 0")
  case True
  with assms show ?thesis by (simp add: readVarInt_def Let_def)
next
  case False
  with assms readVarInt_loop_error[of "if 0 < sint (ToInt32 (at (arr d) (pos d)) AND BIT7) then - 1 else 1"
      "ToInt32 (at (arr d) (pos d)) AND BITS6" 6 "d\<lparr>pos := pos d + 1\<rparr>" e]
  show ?thesis by (simp add: readVarInt_def Let_def)
qed

lemma readVarInt_loop_step:
  "\<not> js_less (at (arr d) (pos d)) (uint BIT8) \<Longrightarrow> len + 7 \<le> 41 \<Longrightarrow>
   readVarInt_loop sign num len d =
     readVarInt_loop sign (num OR shl (ToInt32 (at (arr d) (pos d)) AND BITS7) len) (len + 7)
       (d\<lparr>pos := pos d + 1\<rparr>)"
  by (subst readVarInt_loop.simps) simp

lemma readVarInt_loop_throw:
  "\<not> js_less (at (arr d) (pos d)) (uint BIT8) \<Longrightarrow> 41 < len + 7 \<Longrightarrow>
   readVarInt_loop sign num len d = (Inl IntegerOutOfRange, d\<lparr>pos := pos d + 1\<rparr>)"
  by (subst readVarInt_loop.simps) simp

lemma continues_BIT8: "ToInt32 (Some b) AND BIT8 = 0 \<longleftrightarrow> \<not> continues b"
proof -
  have "(ToInt32 (Some b) AND BIT8 :: int32) = ucast (b AND 0x80)"
    by (rule bit_word_eqI) (auto simp: ToInt32_def BIT8_def bit_simps dest: bit_imp_le_length)
  moreover have "(ucast (b AND 0x80) :: int32) = 0 \<longleftrightarrow> b AND 0x80 = 0"
    using uint_ucast_byte[of "b AND 0x80"] by (metis uint_0_iff)
  ultimately show ?thesis by (simp add: continues_def)
qed

lemma readVarInt_seven_reads:
  assumes c0: "at (arr d) (pos d) = Some b" "continues b"
    and rs: "\<forall>i\<in>{1..<7}. \<not> js_less (at (arr d) (pos d + int i)) (uint BIT8)"
  shows "readVarInt d = (Inl IntegerOutOfRange, d\<lparr>pos := pos d + 7\<rparr>)"
proof -
  have r: "\<not> js_less (at (arr d) (pos d + 1)) (uint BIT8)"
    "\<not> js_less (at (arr d) (pos d + 2)) (uint BIT8)"
    "\<not> js_less (at (arr d) (pos d + 3)) (uint BIT8)"
    "\<not> js_less (at (arr d) (pos d + 4)) (uint BIT8)"
    "\<not> js_less (at (arr d) (pos d + 5)) (uint BIT8)"
    "\<not> js_less (at (arr d) (pos d + 6)) (uint BIT8)"
    using rs[rule_format, of 1] rs[rule_format, of 2] rs[rule_format, of 3]
      rs[rule_format, of 4] rs[rule_format, of 5] rs[rule_format, of 6]
    by simp_all
  have r': "\<not> js_less (at (arr d) (1 + pos d)) (uint BIT8)"
    "\<not> js_less (at (arr d) (2 + pos d)) (uint BIT8)"
    "\<not> js_less (at (arr d) (3 + pos d)) (uint BIT8)"
    "\<not> js_less (at (arr d) (4 + pos d)) (uint BIT8)"
    "\<not> js_less (at (arr d) (5 + pos d)) (uint BIT8)"
    "\<not> js_less (at (arr d) (6 + pos d)) (uint BIT8)"
    using r by (simp_all add: add.commute)
  define sign :: int where "sign = (if 0 < sint (ToInt32 (Some b) AND BIT7) then - 1 else 1)"
  have "readVarInt d = readVarInt_loop sign (ToInt32 (Some b) AND BITS6) 6 (d\<lparr>pos := pos d + 1\<rparr>)"
    using c0 by (simp add: readVarInt_def Let_def continues_BIT8 sign_def)
  also have "\<dots> = (Inl IntegerOutOfRange, d\<lparr>pos := pos d + 7\<rparr>)"
    apply (subst readVarInt_loop_step; simp add: r r')
    apply (subst readVarInt_loop_step; simp add: r r')
    apply (subst readVarInt_loop_step; simp add: r r')
    apply (subst readVarInt_loop_step; simp add: r r')
    apply (subst readVarInt_loop_step; simp add: r r')
    apply (subst readVarInt_loop_throw; simp add: r r')
    done
  finally show ?thesis .
qed

lemma spec_varUint_nonneg: "0 \<le> spec_varUint bs"
  by (induction bs) simp_all

lemma spec_magnitude_nonneg: "0 \<le> spec_magnitude bs"
  by (cases bs) (simp_all add: spec_varUint_nonneg)

lemma or_bound:
  fixes a b :: int
  assumes "0 \<le> a" "0 \<le> b" "a OR b < n"
  shows "a < n" "b < n"
proof -
  have "a \<le> a OR b" using assms(2) by (rule or_greater_eq)
  with assms(3) show "a < n" by simp
  have "b \<le> b OR a" using assms(1) by (rule or_greater_eq)
  with assms(3) show "b < n" by (simp add: or.commute)
qed

lemma shl_payload:
  assumes "push_bit len (uint (b AND 0x7F)) < (2::int) ^ 32"
  shows "shl (ToInt32 (Some b) AND BITS7) len = word_of_int (push_bit len (uint (b AND 0x7F)))"
proof (cases "len < 32")
  case True
  have "push_bit len (word_of_int p :: int32) = word_of_int (push_bit len p)" for p
    by (rule bit_word_eqI) (auto simp: bit_simps)
  then show ?thesis unfolding payload_word shl_small[OF True] by (simp only:)
next
  case False
  then have "(2::int) ^ 32 \<le> 2 ^ len" by (intro power_increasing) simp_all
  moreover have "0 \<le> uint (b AND 0x7F)" by simp
  ultimately have "uint (b AND 0x7F) = 0"
  proof -
    assume le: "(2::int) ^ 32 \<le> 2 ^ len" and nonneg: "0 \<le> uint (b AND 0x7F)"
    show ?thesis
    proof (rule ccontr)
      assume "uint (b AND 0x7F) \<noteq> 0"
      with nonneg have "1 \<le> uint (b AND 0x7F)" by linarith
      then have "1 * 2 ^ len \<le> uint (b AND 0x7F) * 2 ^ len"
        by (intro mult_right_mono) simp_all
      with le assms show False by (simp add: push_bit_eq_mult)
    qed
  qed
  then show ?thesis by (simp add: payload_word shl_def)
qed

lemma readVarInt_loop_decodes:
  assumes "elems (arr d) = xs @ cs @ t # ys" and "pos d = int (length xs)"
    and "\<forall>c\<in>set cs. continues c" and "\<not> continues t"
    and "len + 7 * length cs \<le> 41"
    and "push_bit len (spec_varUint (cs @ [t])) < 2 ^ 32"
  shows "readVarInt_loop sign num len d =
           (Inr (sign * sint (num OR word_of_int (push_bit len (spec_varUint (cs @ [t]))) :: int32)),
            d\<lparr>pos := pos d + int (length cs) + 1\<rparr>)"
  using assms
proof (induction cs arbitrary: xs num len d)
  case Nil
  then have a: "at (arr d) (pos d) = Some t"
    using at_append[of "arr d" xs t ys] by simp
  from Nil(6) have "push_bit len (uint (t AND 0x7F)) < (2::int) ^ 32" by simp
  then have "shl (ToInt32 (Some t) AND BITS7) len = word_of_int (push_bit len (uint (t AND 0x7F)))"
    by (rule shl_payload)
  then show ?case using Nil(4)
    by (subst readVarInt_loop.simps) (simp add: a js_less_BIT8)
next
  case (Cons c cs)
  then have a: "at (arr d) (pos d) = Some c"
    using at_append[of "arr d" xs c "cs @ t # ys"] by simp
  from Cons.prems have c: "continues c" and len: "len + 7 \<le> 41" by simp_all
  let ?p = "uint (c AND 0x7F)"
  let ?R = "spec_varUint (cs @ [t])"
  from Cons.prems(6) have "push_bit len ?p OR push_bit (len + 7) ?R < 2 ^ 32"
    by (simp add: add.commute)
  then have b: "push_bit len ?p < 2 ^ 32" "push_bit (len + 7) ?R < 2 ^ 32"
    by (rule or_bound[rotated 2]; simp add: spec_varUint_nonneg)+
  have s: "shl (ToInt32 (Some c) AND BITS7) len = word_of_int (push_bit len ?p)"
    using b(1) by (rule shl_payload)
  let ?d1 = "d\<lparr>pos := pos d + 1\<rparr>"
  let ?num1 = "num OR word_of_int (push_bit len ?p)"
  have ih: "readVarInt_loop sign ?num1 (len + 7) ?d1 =
      (Inr (sign * sint (?num1 OR word_of_int (push_bit (len + 7) ?R) :: int32)),
       ?d1\<lparr>pos := pos ?d1 + int (length cs) + 1\<rparr>)"
    using Cons.prems b(2) by (intro Cons.IH[of ?d1 "xs @ [c]"]) simp_all
  have w: "(word_of_int (push_bit len (spec_varUint ((c # cs) @ [t]))) :: int32)
      = word_of_int (push_bit len ?p) OR word_of_int (push_bit (len + 7) ?R)"
    by (rule bit_word_eqI) (auto simp: bit_simps)
  have "readVarInt_loop sign num len d = readVarInt_loop sign ?num1 (len + 7) ?d1"
    using c len by (subst readVarInt_loop_step) (simp_all add: a js_less_BIT8 s)
  also note ih
  finally show ?case
    unfolding w by (simp add: or.assoc add.commute)
qed

lemma sint_word_of_int_small:
  assumes "0 \<le> m" "m < 2 ^ 31"
  shows "sint (word_of_int m :: int32) = m"
proof -
  have "uint (word_of_int m :: int32) = m"
    using assms by (simp add: uint_word_of_int)
  with assms(2) sint_small[of "word_of_int m"] show ?thesis by simp
qed

lemma first_byte_payload:
  "ToInt32 (Some b) AND BITS6 = word_of_int (uint (b AND 0x3F))"
  by (rule bit_word_eqI) (auto simp: ToInt32_def BITS6_def bit_simps dest: bit_imp_le_length)

lemma first_byte_sign:
  "(if 0 < sint (ToInt32 (Some b) AND BIT7) then - 1 else 1) = spec_sign b"
proof -
  have w: "(ToInt32 (Some b) AND BIT7 :: int32) = ucast (b AND 0x40)"
    by (rule bit_word_eqI) (auto simp: ToInt32_def BIT7_def bit_simps dest: bit_imp_le_length)
  have u: "uint (ucast (b AND 0x40) :: int32) = uint (b AND 0x40)"
    by (rule uint_ucast_byte)
  have "uint (b AND 0x40) < 2 ^ 31"
    using uint_byte_bound[of "b AND 0x40"] by simp
  then have "sint (ucast (b AND 0x40) :: int32) = uint (b AND 0x40)"
    using sint_small[of "ucast (b AND 0x40)"] u by simp
  moreover have "0 < uint (b AND 0x40) \<longleftrightarrow> b AND 0x40 \<noteq> 0"
    using uint_ge_0[of "b AND 0x40"] uint_0_iff[of "b AND 0x40"] by linarith
  ultimately show ?thesis by (simp add: w spec_sign_def)
qed

text \<open>
  For every sequence of bytes that \<open>readVarInt\<close> accepts (a first byte, at most five
  bytes more with the continuation flag, and a last byte without it) and whose magnitude
  is below \<open>2^31\<close>, it returns the magnitude with the sign of the first byte.
\<close>

lemma readVarInt_decodes:
  assumes e: "elems (arr d) = xs @ cs @ t # ys" and p: "pos d = int (length xs)"
    and c: "\<forall>c\<in>set cs. continues c" and t: "\<not> continues t"
    and l: "length cs \<le> 6" and m: "spec_magnitude (cs @ [t]) < 2 ^ 31"
  shows "readVarInt d =
           (Inr (spec_varInt (cs @ [t])), d\<lparr>pos := pos d + int (length cs) + 1\<rparr>)"
proof (cases cs)
  case Nil
  then have a: "at (arr d) (pos d) = Some t"
    using at_append[of "arr d" xs t ys] e p by simp
  have "sint (word_of_int (uint (t AND 0x3F)) :: int32) = uint (t AND 0x3F)"
    using m Nil by (intro sint_word_of_int_small) simp_all
  then show ?thesis using t Nil
    by (simp add: readVarInt_def Let_def a continues_BIT8 first_byte_sign first_byte_payload
        spec_varInt_def)
next
  case (Cons b cs')
  then have a: "at (arr d) (pos d) = Some b"
    using at_append[of "arr d" xs b "cs' @ t # ys"] e p by simp
  let ?d1 = "d\<lparr>pos := pos d + 1\<rparr>"
  let ?p = "uint (b AND 0x3F)"
  let ?R = "spec_varUint (cs' @ [t])"
  have b: "continues b" using c Cons by simp
  from m Cons have mm: "?p OR push_bit 6 ?R < 2 ^ 31" by simp
  then have "push_bit 6 ?R < 2 ^ 31"
    by (rule or_bound(2)[rotated 2]) (simp_all add: spec_varUint_nonneg)
  then have r: "push_bit 6 ?R < 2 ^ 32" by simp
  have loop: "readVarInt_loop (spec_sign b) (word_of_int ?p) 6 ?d1 =
           (Inr (spec_sign b * sint (word_of_int ?p OR word_of_int (push_bit 6 ?R) :: int32)),
            ?d1\<lparr>pos := pos ?d1 + int (length cs') + 1\<rparr>)"
    using e p c t l Cons r
    by (intro readVarInt_loop_decodes[of ?d1 "xs @ [b]" cs' t ys]) simp_all
  have w: "(word_of_int ?p OR word_of_int (push_bit 6 ?R) :: int32)
      = word_of_int (spec_magnitude (cs @ [t]))"
    unfolding Cons by (rule bit_word_eqI) (auto simp: bit_simps)
  have "sint (word_of_int (spec_magnitude (cs @ [t])) :: int32) = spec_magnitude (cs @ [t])"
    using m by (intro sint_word_of_int_small spec_magnitude_nonneg)
  then have loop': "readVarInt_loop (spec_sign b) (word_of_int ?p) 6 ?d1 =
      (Inr (spec_sign b * spec_magnitude (cs @ [t])), d\<lparr>pos := pos d + int (length cs) + 1\<rparr>)"
    unfolding loop w using Cons by simp
  have "readVarInt d = readVarInt_loop (spec_sign b) (word_of_int ?p) 6 ?d1"
    using b by (simp add: readVarInt_def Let_def a continues_BIT8 first_byte_sign first_byte_payload)
  also note loop'
  finally show ?thesis using Cons
    by (simp add: spec_varInt_def)
qed

text \<open>
  The format has no sixth byte of an unsigned integer, and the loop accepts one: it is
  shifted by \<open>35 mod 32 = 3\<close> bits.
\<close>

lemma readVarUint_sixth_byte:
  "readVarUint (createDecoder (view_of [0x80, 0x80, 0x80, 0x80, 0x80, 0x01])) =
     (Inr 8, createDecoder (view_of [0x80, 0x80, 0x80, 0x80, 0x80, 0x01])\<lparr>pos := 6\<rparr>)"
  by code_simp

section \<open>Variable-length integers: what the readers return\<close>

text \<open>
  C1. When the bytes at the cursor are at most four bytes with the continuation flag and
  then a byte without it, \<open>readVarUint\<close> returns their value in base 128, least
  significant byte first, modulo \<open>2^32\<close>, and advances the cursor by their number.
\<close>

theorem readVarUint_decodes:
  assumes "elems (arr d) = xs @ cs @ t # ys" and "pos d = int (length xs)"
    and "\<forall>c\<in>set cs. continues c" and "\<not> continues t"
    and "length cs \<le> 4"
  shows "readVarUint d =
           (Inr (spec_varUint (cs @ [t]) mod 2 ^ 32), d\<lparr>pos := pos d + int (length cs) + 1\<rparr>)"
  using readVarUint_loop_decodes[OF assms(1-4), of 0 0] assms(5)
  by (simp add: readVarUint_def uint_word_of_int)

theorem readVarUint_decodes_witness:
  "readVarUint (createDecoder (view_of [0xE5, 0x8E, 0x26, 0x01])) =
     (Inr 624485, createDecoder (view_of [0xE5, 0x8E, 0x26, 0x01])\<lparr>pos := 3\<rparr>)
   \<and> readVarUint (createDecoder (view_of [0xFF, 0xFF, 0xFF, 0xFF, 0x7F])) =
     (Inr 4294967295, createDecoder (view_of [0xFF, 0xFF, 0xFF, 0xFF, 0x7F])\<lparr>pos := 5\<rparr>)"
  using readVarUint_decodes[of "createDecoder (view_of [0xE5, 0x8E, 0x26, 0x01])"
      "[]" "[0xE5, 0x8E]" "0x26" "[0x01]"]
    readVarUint_decodes[of "createDecoder (view_of [0xFF, 0xFF, 0xFF, 0xFF, 0x7F])"
      "[]" "[0xFF, 0xFF, 0xFF, 0xFF]" "0x7F" "[]"]
  by (simp add: createDecoder_def view_of_def continues_def)

text \<open>
  C4. When the six bytes at the cursor all have the continuation flag, \<open>readVarUint\<close>
  throws \<open>IntegerOutOfRange\<close>, with the cursor after the sixth byte.
\<close>

theorem readVarUint_out_of_range:
  assumes e: "elems (arr d) = xs @ cs @ ys" and p: "pos d = int (length xs)"
    and l: "length cs = 6" and c: "\<forall>c\<in>set cs. continues c"
  shows "readVarUint d = (Inl IntegerOutOfRange, d\<lparr>pos := pos d + 6\<rparr>)"
proof (rule readVarUint_six_reads, intro allI impI)
  fix i :: nat assume i: "i < 6"
  then have "at (arr d) (pos d + int i) = Some (cs ! i)"
    using at_append_plus[OF e, of i] p l by simp
  moreover have "continues (cs ! i)" using c i l by simp
  ultimately show "\<not> js_less (at (arr d) (pos d + int i)) (uint BIT8)"
    by (simp add: js_less_BIT8)
qed

theorem readVarUint_out_of_range_witness:
  "readVarUint (createDecoder (view_of [0x80, 0x81, 0xFF, 0x80, 0x80, 0x80, 0x00])) =
     (Inl IntegerOutOfRange,
      createDecoder (view_of [0x80, 0x81, 0xFF, 0x80, 0x80, 0x80, 0x00])\<lparr>pos := 6\<rparr>)"
  using readVarUint_out_of_range[of
      "createDecoder (view_of [0x80, 0x81, 0xFF, 0x80, 0x80, 0x80, 0x00])"
      "[]" "[0x80, 0x81, 0xFF, 0x80, 0x80, 0x80]" "[0x00]"]
  by (simp add: createDecoder_def view_of_def continues_def)

text \<open>
  C2. \<open>readVarInt\<close> is to take the bit \<open>0x40\<close> of the first byte as the sign and to
  multiply the magnitude that the bytes assemble by \<open>-1\<close> when it is set. The bytes
  \<open>C0 80 80 80 10\<close> have the sign bit and assemble the magnitude \<open>2^31\<close>: they encode
  \<open>- 2^31\<close>, the least signed 32-bit integer. \<open>readVarInt\<close> returns \<open>2^31\<close> for them:
  \<open>0x10 << 27\<close> is the 32-bit integer \<open>- 2^31\<close>, and \<open>sign * num\<close> negates it.
\<close>

theorem readVarInt_least_int32:
  "spec_varInt [0xC0, 0x80, 0x80, 0x80, 0x10] = - 2147483648
   \<and> readVarInt (createDecoder (view_of [0xC0, 0x80, 0x80, 0x80, 0x10])) =
     (Inr 2147483648, createDecoder (view_of [0xC0, 0x80, 0x80, 0x80, 0x10])\<lparr>pos := 5\<rparr>)"
  by code_simp

text \<open>
  C5, as the specification states it, fails: of the bytes \<open>80 80 80 80 80 80 00\<close>
  \<open>readVarInt\<close> reads all seven and returns 0.
\<close>

theorem readVarInt_six_bytes_counterexample:
  "readVarInt (createDecoder (view_of [0x80, 0x80, 0x80, 0x80, 0x80, 0x80, 0x00])) =
     (Inr 0, createDecoder (view_of [0x80, 0x80, 0x80, 0x80, 0x80, 0x80, 0x00])\<lparr>pos := 7\<rparr>)"
  by code_simp

text \<open>
  C5, amended. \<open>readVarInt\<close> reads at least one byte and at most seven, whatever the
  input. It throws nothing but \<open>IntegerOutOfRange\<close>, and only with the cursor after the
  seventh byte: the check \<open>len > 41\<close> comes after the seventh byte has been read and found
  to continue. Seven bytes with the continuation flag make it throw.
\<close>

theorem readVarInt_at_most_seven_bytes:
  "arr (snd (readVarInt d)) = arr d
   \<and> pos d + 1 \<le> pos (snd (readVarInt d)) \<and> pos (snd (readVarInt d)) \<le> pos d + 7
   \<and> (fst (readVarInt d) = Inl e \<longrightarrow>
        e = IntegerOutOfRange \<and> pos (snd (readVarInt d)) = pos d + 7)
   \<and> (elems (arr d) = xs @ cs @ ys \<and> pos d = int (length xs) \<and> length cs = 7
        \<and> (\<forall>c\<in>set cs. continues c) \<longrightarrow>
        readVarInt d = (Inl IntegerOutOfRange, d\<lparr>pos := pos d + 7\<rparr>))"
proof -
  have "readVarInt d = (Inl IntegerOutOfRange, d\<lparr>pos := pos d + 7\<rparr>)"
    if e: "elems (arr d) = xs @ cs @ ys" and p: "pos d = int (length xs)"
      and l: "length cs = 7" and c: "\<forall>c\<in>set cs. continues c"
  proof (rule readVarInt_seven_reads)
    show "at (arr d) (pos d) = Some (cs ! 0)"
      using at_append_plus[OF e, of 0] p l by simp
    show "continues (cs ! 0)" using c l by simp
    show "\<forall>i\<in>{1..<7}. \<not> js_less (at (arr d) (pos d + int i)) (uint BIT8)"
    proof
      fix i :: nat assume "i \<in> {1..<7}"
      then have i: "i < 7" by simp
      then have "at (arr d) (pos d + int i) = Some (cs ! i)"
        using at_append_plus[OF e, of i] p l by simp
      moreover have "continues (cs ! i)" using c i l by simp
      ultimately show "\<not> js_less (at (arr d) (pos d + int i)) (uint BIT8)"
        by (simp add: js_less_BIT8)
    qed
  qed
  with readVarInt_bound[of d] readVarInt_error[of d e] show ?thesis by blast
qed

theorem readVarInt_at_most_seven_bytes_witness:
  "readVarInt (createDecoder (view_of [0x80, 0x80, 0x80, 0x80, 0x80, 0x80, 0x80, 0x00])) =
     (Inl IntegerOutOfRange,
      createDecoder (view_of [0x80, 0x80, 0x80, 0x80, 0x80, 0x80, 0x80, 0x00])\<lparr>pos := 7\<rparr>)"
  using readVarInt_at_most_seven_bytes[of
      "createDecoder (view_of [0x80, 0x80, 0x80, 0x80, 0x80, 0x80, 0x80, 0x00])"
      IntegerOutOfRange "[]" "[0x80, 0x80, 0x80, 0x80, 0x80, 0x80, 0x80]" "[0x00]"]
  by (simp add: createDecoder_def view_of_def continues_def)

section \<open>Fixed-width integers\<close>

text \<open>
  C8. \<open>readUint32\<close> on a decoder with four bytes \<open>b0, b1, b2, b3\<close> at the cursor advances
  the cursor by 4 and returns \<open>b0 + b1 * 2^8 + b2 * 2^16 + b3 * 2^24\<close>, a value between 0
  and \<open>2^32 - 1\<close>: the sign that \<open>b3 << 24\<close> has when the high bit of \<open>b3\<close> is set is
  removed by \<open>>>> 0\<close>.
\<close>

theorem readUint32_little_endian:
  assumes e: "elems (arr d) = xs @ [b0, b1, b2, b3] @ ys" and p: "pos d = int (length xs)"
  shows "readUint32 d =
           (Inr (uint b0 + uint b1 * 2 ^ 8 + uint b2 * 2 ^ 16 + uint b3 * 2 ^ 24),
            d\<lparr>pos := pos d + 4\<rparr>)
         \<and> 0 \<le> uint b0 + uint b1 * 2 ^ 8 + uint b2 * 2 ^ 16 + uint b3 * 2 ^ 24
         \<and> uint b0 + uint b1 * 2 ^ 8 + uint b2 * 2 ^ 16 + uint b3 * 2 ^ 24 \<le> 2 ^ 32 - 1"
proof -
  let ?v = "uint b0 + uint b1 * 2 ^ 8 + uint b2 * 2 ^ 16 + uint b3 * 2 ^ 24"
  have a0: "at (arr d) (pos d) = Some b0"
    using at_append_plus[OF e, of 0] p by simp
  have a1: "at (arr d) (pos d + 1) = Some b1"
    using at_append_plus[OF e, of 1] p by simp
  have a2: "at (arr d) (pos d + 2) = Some b2"
    using at_append_plus[OF e, of 2] p by simp
  have a3: "at (arr d) (pos d + 3) = Some b3"
    using at_append_plus[OF e, of 3] p by simp
  have lo: "0 \<le> ?v"
    using uint_ge_0[of b0] uint_ge_0[of b1] uint_ge_0[of b2] uint_ge_0[of b3] by simp
  have hi: "?v \<le> 2 ^ 32 - 1"
    using uint_byte_bound[of b0] uint_byte_bound[of b1] uint_byte_bound[of b2]
      uint_byte_bound[of b3] by simp
  have "ToUint32 (Num (uint b0 + uint b1 * 2 ^ 8 + uint b2 * 2 ^ 16
          + sint (shl (ucast b3) 24 :: int32))) = ?v mod 2 ^ 32"
    unfolding ToUint32_def
    using add_sint_mod[of "uint b0 + uint b1 * 2 ^ 8 + uint b2 * 2 ^ 16" "shl (ucast b3) 24"]
    by (simp add: uint_shl_ucast)
  also have "\<dots> = ?v" using lo hi by simp
  finally have "readUint32 d = (Inr ?v, d\<lparr>pos := pos d + 4\<rparr>)"
    by (simp add: readUint32_def a0 a1 a2 a3 ToNumber_def ToInt32_def int32_number_def
        js_add_def sint_shl_ucast)
  with lo hi show ?thesis by simp
qed

theorem readUint32_little_endian_witness:
  "readUint32 (createDecoder (view_of [0x01, 0x02, 0x03, 0xFF])) =
     (Inr 4278387201, (createDecoder (view_of [0x01, 0x02, 0x03, 0xFF]))\<lparr>pos := 4\<rparr>)"
  using readUint32_little_endian[of "createDecoder (view_of [0x01, 0x02, 0x03, 0xFF])"
      "[]" "0x01" "0x02" "0x03" "0xFF" "[]"]
  by (simp add: createDecoder_def view_of_def)

text \<open>
  C10. On a decoder whose position is at or past the end of the array, \<open>readUint8\<close>,
  \<open>readUint16\<close>, \<open>readUint32\<close> and \<open>skip8\<close> do not throw: they advance the position by 1,
  2, 4 and 1, and return \<open>undefined\<close>, NaN, 0 and the old position.
\<close>

theorem fixed_width_no_bounds_check:
  assumes "length_of (arr d) \<le> pos d"
  shows "readUint8 d = (Inr None, d\<lparr>pos := pos d + 1\<rparr>)
       \<and> readUint16 d = (Inr NaN, d\<lparr>pos := pos d + 2\<rparr>)
       \<and> readUint32 d = (Inr 0, d\<lparr>pos := pos d + 4\<rparr>)
       \<and> skip8 d = (Inr (pos d), d\<lparr>pos := pos d + 1\<rparr>)"
  using assms
  by (simp add: readUint8_def readUint16_def readUint32_def skip8_def at_outside
      ToNumber_def ToInt32_def js_add_def ToUint32_def int32_number_def shl_def)

theorem fixed_width_no_bounds_check_witness:
  "readUint8 (createDecoder (view_of [7])\<lparr>pos := 1\<rparr>)
     = (Inr None, createDecoder (view_of [7])\<lparr>pos := 2\<rparr>)
   \<and> readUint16 (createDecoder (view_of [7])\<lparr>pos := 1\<rparr>)
     = (Inr NaN, createDecoder (view_of [7])\<lparr>pos := 3\<rparr>)
   \<and> readUint32 (createDecoder (view_of [7])\<lparr>pos := 1\<rparr>)
     = (Inr 0, createDecoder (view_of [7])\<lparr>pos := 5\<rparr>)
   \<and> skip8 (createDecoder (view_of [7])\<lparr>pos := 1\<rparr>)
     = (Inr 1, createDecoder (view_of [7])\<lparr>pos := 2\<rparr>)"
  using fixed_width_no_bounds_check[of "createDecoder (view_of [7])\<lparr>pos := 1\<rparr>"]
  by (simp add: createDecoder_def view_of_def length_of_def)

section \<open>What a reader leaves of the decoder\<close>

lemma advanced_refl: "advanced d d"
  by (simp add: advanced_def)

lemma advanced_trans: "advanced d d1 \<Longrightarrow> advanced d1 d2 \<Longrightarrow> advanced d d2"
  by (auto simp: advanced_def)

lemma advanced_step: "0 \<le> k \<Longrightarrow> advanced d (d\<lparr>pos := pos d + k\<rparr>)"
  by (simp add: advanced_def)

lemma rewind: "arr d' = arr d \<Longrightarrow> d'\<lparr>pos := pos d\<rparr> = d" for d d' :: decoder
  by (cases d, cases d') simp

lemma readVarUint_loop_advanced: "advanced d (snd (readVarUint_loop num len d))"
proof (induction num len d rule: readVarUint_loop.induct)
  case (1 num len d)
  let ?r = "at (arr d) (pos d)"
  show ?case
  proof (cases "js_less ?r (uint BIT8) \<or> len + 7 > 35")
    case True
    then have "snd (readVarUint_loop num len d) = d\<lparr>pos := pos d + 1\<rparr>"
      by (subst readVarUint_loop.simps) auto
    then show ?thesis by (simp add: advanced_def)
  next
    case False
    then have s: "readVarUint_loop num len d =
       readVarUint_loop (num OR shl (ToInt32 ?r AND BITS7) len) (len + 7) (d\<lparr>pos := pos d + 1\<rparr>)"
      by (intro readVarUint_loop_step) simp_all
    have "advanced (d\<lparr>pos := pos d + 1\<rparr>) (snd (readVarUint_loop num len d))"
      using "1.IH" False unfolding s by simp
    then show ?thesis by (simp add: advanced_def)
  qed
qed

lemma readVarUint_advanced: "advanced d (snd (readVarUint d))"
  by (simp add: readVarUint_def readVarUint_loop_advanced)

lemma readVarInt_advanced: "advanced d (snd (readVarInt d))"
  using readVarInt_bound[of d] by (simp add: advanced_def)

lemma readUint8Array_advanced: "advanced d (snd (readUint8Array d len))"
  by (auto simp: readUint8Array_def createUint8ArrayViewFromArrayBuffer_def advanced_def)

lemma readVarUint8Array_advanced: "advanced d (snd (readVarUint8Array d))"
proof (cases "readVarUint d")
  case (Pair r d1)
  then have "advanced d d1" using readVarUint_advanced[of d] by simp
  then show ?thesis
    using Pair readUint8Array_advanced[of d1]
    by (cases r) (auto simp: readVarUint8Array_def intro: advanced_trans)
qed

lemma snd_and_then: "snd (and_then r f) = snd r"
  by (auto simp: and_then_def split: prod.splits sum.splits)

lemma readVarString_advanced: "advanced d (snd (readVarString u d))"
  by (simp add: readVarString_def snd_and_then readVarUint8Array_advanced)

lemma peek_advanced:
  assumes "advanced d (snd r)"
  shows "advanced d (snd (case r of (Inl e, d') \<Rightarrow> (Inl e, d') | (Inr s, d') \<Rightarrow> (Inr s, d'\<lparr>pos := pos d\<rparr>)))"
  using assms by (auto simp: advanced_def split: prod.splits sum.splits)

lemma peekVarUint_advanced: "advanced d (snd (peekVarUint d))"
  unfolding peekVarUint_def by (rule peek_advanced) (rule readVarUint_advanced)

lemma peekVarInt_advanced: "advanced d (snd (peekVarInt d))"
  unfolding peekVarInt_def by (rule peek_advanced) (rule readVarInt_advanced)

lemma peekVarString_advanced: "advanced d (snd (peekVarString u d))"
  unfolding peekVarString_def by (rule peek_advanced) (rule readVarString_advanced)

lemma readFromDataView_advanced: "advanced d (snd (readFromDataView d len))"
  by (auto simp: readFromDataView_def new_DataView_def advanced_def)

lemma readFloat_advanced:
  "advanced d (snd (readFloat32 d))" "advanced d (snd (readFloat64 d))"
  "advanced d (snd (readBigInt64 d))" "advanced d (snd (readBigUint64 d))"
  by (simp_all add: readFloat32_def readFloat64_def readBigInt64_def readBigUint64_def
      snd_and_then readFromDataView_advanced)

text \<open>
  C7, as the specification states it, fails: on an empty array \<open>peekVarUint\<close> throws and
  leaves the position at 6.
\<close>

theorem peekVarUint_failure_counterexample:
  "peekVarUint (createDecoder (view_of [])) =
     (Inl IntegerOutOfRange, createDecoder (view_of [])\<lparr>pos := 6\<rparr>)"
  by code_simp

text \<open>
  C7, amended. When \<open>readVarUint\<close> returns, \<open>peekVarUint\<close> returns the same value and
  leaves the decoder as it was; when \<open>readVarUint\<close> throws, \<open>peekVarUint\<close> throws the
  same error. The same holds of \<open>peekVarString\<close> and \<open>readVarString\<close>.
\<close>

theorem peek_leaves_position:
  "(readVarUint d = (Inr v, d1) \<longrightarrow> peekVarUint d = (Inr v, d))
   \<and> (readVarUint d = (Inl e, d1) \<longrightarrow> fst (peekVarUint d) = Inl e)
   \<and> (readVarString u d = (Inr s, d2) \<longrightarrow> peekVarString u d = (Inr s, d))
   \<and> (readVarString u d = (Inl e, d2) \<longrightarrow> fst (peekVarString u d) = Inl e)"
proof -
  have "arr d1 = arr d" if "readVarUint d = (r, d1)" for r
    using readVarUint_advanced[of d] that by (simp add: advanced_def)
  moreover have "arr d2 = arr d" if "readVarString u d = (r, d2)" for r
    using readVarString_advanced[of d u] that by (simp add: advanced_def)
  ultimately show ?thesis
    by (auto simp: peekVarUint_def peekVarString_def rewind)
qed

theorem peek_leaves_position_witness:
  "peekVarUint (createDecoder (view_of [0x85, 0x01, 0x07])) =
     (Inr 133, createDecoder (view_of [0x85, 0x01, 0x07]))
   \<and> fst (peekVarUint (createDecoder (view_of []))) = Inl IntegerOutOfRange
   \<and> peekVarString ascii (createDecoder (view_of [0x02, 0x68, 0x69])) =
     (Inr ''hi'', createDecoder (view_of [0x02, 0x68, 0x69]))
   \<and> fst (peekVarString ascii (createDecoder (view_of [0x02, 0x68]))) = Inl BufferUnderrun"
proof -
  have 1: "readVarUint (createDecoder (view_of [0x85, 0x01, 0x07])) =
      (Inr 133, createDecoder (view_of [0x85, 0x01, 0x07])\<lparr>pos := 2\<rparr>)"
    by code_simp
  have 2: "readVarUint (createDecoder (view_of [])) =
      (Inl IntegerOutOfRange, createDecoder (view_of [])\<lparr>pos := 6\<rparr>)"
    by code_simp
  have 3: "readVarString ascii (createDecoder (view_of [0x02, 0x68, 0x69])) =
      (Inr ''hi'', createDecoder (view_of [0x02, 0x68, 0x69])\<lparr>pos := 3\<rparr>)"
    by code_simp
  have 4: "readVarString ascii (createDecoder (view_of [0x02, 0x68])) =
      (Inl BufferUnderrun, createDecoder (view_of [0x02, 0x68])\<lparr>pos := 1\<rparr>)"
    by code_simp
  note a = peek_leaves_position[THEN conjunct1, THEN mp, OF 1]
  note b = peek_leaves_position[THEN conjunct2, THEN conjunct1, THEN mp, OF 2]
  note c = peek_leaves_position[THEN conjunct2, THEN conjunct2, THEN conjunct1, THEN mp, OF 3]
  note d = peek_leaves_position[THEN conjunct2, THEN conjunct2, THEN conjunct2, THEN mp, OF 4]
  from a b c d show ?thesis by simp
qed

section \<open>Byte arrays and strings: the end of the buffer\<close>

lemma readUint8Array_underrun:
  assumes "int (length (elems (arr d)) + length (trail (arr d))) - pos d < len"
  shows "readUint8Array d len = (Inl BufferUnderrun, d)"
  using assms
  by (simp add: readUint8Array_def createUint8ArrayViewFromArrayBuffer_def buffer_def
      byteOffset_def)

lemma readUint8Array_length:
  assumes "readUint8Array d len = (Inr view, d')"
  shows "int (length (elems view)) = len"
  using assms
  by (auto simp: readUint8Array_def createUint8ArrayViewFromArrayBuffer_def
      split: if_splits)

text \<open>
  C6, as the specification states it, fails: the array holds the single byte 2 and its
  buffer three bytes more; no byte of the array remains after the length, and
  \<open>readVarUint8Array\<close> returns the next two bytes of the buffer.
\<close>

theorem readVarUint8Array_beyond_array_counterexample:
  "readVarUint8Array (createDecoder \<lparr>lead = [], elems = [0x02], trail = [0x68, 0x69, 0x21]\<rparr>) =
     (Inr \<lparr>lead = [0x02], elems = [0x68, 0x69], trail = [0x21]\<rparr>,
      createDecoder \<lparr>lead = [], elems = [0x02], trail = [0x68, 0x69, 0x21]\<rparr>\<lparr>pos := 3\<rparr>)"
  by code_simp

text \<open>
  C6, amended. When the length that \<open>readVarUint\<close> returns exceeds the number of bytes
  that remain in the buffer of the array after the length, \<open>readVarUint8Array\<close> and
  \<open>readVarString\<close> throw \<open>BufferUnderrun\<close>; for an array that ends where its buffer ends
  these are the bytes that remain in the array. A view that \<open>readVarUint8Array\<close> returns
  has the length that was read.
\<close>

theorem declared_length_beyond_buffer:
  assumes "readVarUint d = (Inr n, d1)"
  shows "(int (length (elems (arr d)) + length (trail (arr d))) - pos d1 < n \<longrightarrow>
            readVarUint8Array d = (Inl BufferUnderrun, d1)
            \<and> readVarString u d = (Inl BufferUnderrun, d1))
       \<and> (trail (arr d) = [] \<and> length_of (arr d) - pos d1 < n \<longrightarrow>
            readVarUint8Array d = (Inl BufferUnderrun, d1)
            \<and> readVarString u d = (Inl BufferUnderrun, d1))
       \<and> (readVarUint8Array d = (Inr view, d2) \<longrightarrow> int (length (elems view)) = n)"
proof -
  have a: "arr d1 = arr d"
    using readVarUint_advanced[of d] assms by (simp add: advanced_def)
  have 1: "readVarUint8Array d = (Inl BufferUnderrun, d1) \<and> readVarString u d = (Inl BufferUnderrun, d1)"
    if "int (length (elems (arr d)) + length (trail (arr d))) - pos d1 < n"
    using that assms a readUint8Array_underrun[of d1 n]
    by (simp add: readVarUint8Array_def readVarString_def and_then_def)
  have 2: "int (length (elems view)) = n" if "readVarUint8Array d = (Inr view, d2)"
    using that assms readUint8Array_length[of d1 n view d2]
    by (simp add: readVarUint8Array_def)
  from 1 2 show ?thesis by (simp add: length_of_def)
qed

theorem declared_length_beyond_buffer_witness:
  "readVarUint8Array (createDecoder (view_of [0x03, 0x68, 0x69])) =
     (Inl BufferUnderrun, createDecoder (view_of [0x03, 0x68, 0x69])\<lparr>pos := 1\<rparr>)
   \<and> readVarString ascii (createDecoder (view_of [0x03, 0x68, 0x69])) =
     (Inl BufferUnderrun, createDecoder (view_of [0x03, 0x68, 0x69])\<lparr>pos := 1\<rparr>)
   \<and> int (length (elems \<lparr>lead = [0x02], elems = [0x68, 0x69], trail = []\<rparr>)) = 2"
proof -
  have 1: "readVarUint (createDecoder (view_of [0x03, 0x68, 0x69])) =
      (Inr 3, createDecoder (view_of [0x03, 0x68, 0x69])\<lparr>pos := 1\<rparr>)"
    by code_simp
  have 2: "readVarUint (createDecoder (view_of [0x02, 0x68, 0x69])) =
      (Inr 2, createDecoder (view_of [0x02, 0x68, 0x69])\<lparr>pos := 1\<rparr>)"
    by code_simp
  have 3: "readVarUint8Array (createDecoder (view_of [0x02, 0x68, 0x69])) =
      (Inr \<lparr>lead = [0x02], elems = [0x68, 0x69], trail = []\<rparr>,
       createDecoder (view_of [0x02, 0x68, 0x69])\<lparr>pos := 3\<rparr>)"
    by code_simp
  have a: "readVarUint8Array (createDecoder (view_of [0x03, 0x68, 0x69])) =
     (Inl BufferUnderrun, createDecoder (view_of [0x03, 0x68, 0x69])\<lparr>pos := 1\<rparr>)
   \<and> readVarString ascii (createDecoder (view_of [0x03, 0x68, 0x69])) =
     (Inl BufferUnderrun, createDecoder (view_of [0x03, 0x68, 0x69])\<lparr>pos := 1\<rparr>)"
    using declared_length_beyond_buffer[OF 1, THEN conjunct1, of ascii]
      declared_length_beyond_buffer[OF 1, THEN conjunct2, THEN conjunct1, of ascii]
    by (simp add: createDecoder_def view_of_def length_of_def)
  note b = declared_length_beyond_buffer[OF 2, THEN conjunct2, THEN conjunct2, THEN mp, OF 3]
  from a b show ?thesis by simp
qed

section \<open>Tagged values: the table and the loops\<close>

lemma lookup_table_in:
  "lookup (readAnyLookupTable u rd) (Num 0) = Some (\<lambda>d. Some (Inr AUndefined, d))"
  "lookup (readAnyLookupTable u rd) (Num 1) = Some (\<lambda>d. Some (Inr ANull, d))"
  "lookup (readAnyLookupTable u rd) (Num 2) =
     Some (\<lambda>d. Some (and_then (readVarInt d) (\<lambda>x. Inr (AInteger x))))"
  "lookup (readAnyLookupTable u rd) (Num 3) =
     Some (\<lambda>d. Some (and_then (readFloat32 d) (\<lambda>x. Inr (AFloat32 x))))"
  "lookup (readAnyLookupTable u rd) (Num 4) =
     Some (\<lambda>d. Some (and_then (readFloat64 d) (\<lambda>x. Inr (AFloat64 x))))"
  "lookup (readAnyLookupTable u rd) (Num 5) =
     Some (\<lambda>d. Some (and_then (readBigInt64 d) (\<lambda>x. Inr (ABigInt x))))"
  "lookup (readAnyLookupTable u rd) (Num 6) = Some (\<lambda>d. Some (Inr (ABoolean False), d))"
  "lookup (readAnyLookupTable u rd) (Num 7) = Some (\<lambda>d. Some (Inr (ABoolean True), d))"
  "lookup (readAnyLookupTable u rd) (Num 8) =
     Some (\<lambda>d. Some (and_then (readVarString (decode_utf8 u) d) (\<lambda>x. Inr (AString x))))"
  "lookup (readAnyLookupTable u rd) (Num 9) =
     Some (\<lambda>d. case readVarUint d of
                  (Inl e, d1) \<Rightarrow> Some (Inl e, d1)
                | (Inr len, d1) \<Rightarrow> readObject_loop u rd (nat len) (new_object u) d1)"
  "lookup (readAnyLookupTable u rd) (Num 10) =
     Some (\<lambda>d. case readVarUint d of
                  (Inl e, d1) \<Rightarrow> Some (Inl e, d1)
                | (Inr len, d1) \<Rightarrow> readArray_loop rd (nat len) [] d1)"
  "lookup (readAnyLookupTable u rd) (Num 11) =
     Some (\<lambda>d. Some (and_then (readVarUint8Array d) (\<lambda>x. Inr (AUint8Array x))))"
  by (simp_all add: lookup_def readAnyLookupTable_def)

lemma lookup_table_out:
  "k < 0 \<or> 12 \<le> k \<Longrightarrow> lookup (readAnyLookupTable u rd) (Num k) = None"
  by (auto simp: lookup_def readAnyLookupTable_def)

lemma readAny_Suc_tag:
  assumes "at (arr d) (pos d) = Some tag"
  shows "readAny u (Suc fuel) d =
     (case lookup (readAnyLookupTable u (readAny u fuel)) (Num (127 - uint tag)) of
        None \<Rightarrow> Some (Inl UnknownTag, d\<lparr>pos := pos d + 1\<rparr>)
      | Some f \<Rightarrow> f (d\<lparr>pos := pos d + 1\<rparr>))"
  using assms by (simp add: readUint8_def js_sub_def)

lemma readAny_Suc_absent:
  assumes "at (arr d) (pos d) = None"
  shows "readAny u (Suc fuel) d = Some (Inl UnknownTag, d\<lparr>pos := pos d + 1\<rparr>)"
  using assms by (simp add: readUint8_def js_sub_def lookup_def)

lemma tag_cases:
  fixes tag :: byte
  assumes "tag \<noteq> 127" "tag \<noteq> 126" "tag \<noteq> 125" "tag \<noteq> 124" "tag \<noteq> 123" "tag \<noteq> 122"
    "tag \<noteq> 121" "tag \<noteq> 120" "tag \<noteq> 119" "tag \<noteq> 118" "tag \<noteq> 117" "tag \<noteq> 116"
  shows "127 - uint tag < 0 \<or> 12 \<le> 127 - uint tag"
proof -
  have "uint tag \<noteq> k" if "tag \<noteq> word_of_int k" for k
    using that by (metis word_of_int_uint)
  from this[of 127] this[of 126] this[of 125] this[of 124] this[of 123] this[of 122]
    this[of 121] this[of 120] this[of 119] this[of 118] this[of 117] this[of 116] assms
  have "uint tag \<noteq> 127" "uint tag \<noteq> 126" "uint tag \<noteq> 125" "uint tag \<noteq> 124" "uint tag \<noteq> 123"
    "uint tag \<noteq> 122" "uint tag \<noteq> 121" "uint tag \<noteq> 120" "uint tag \<noteq> 119" "uint tag \<noteq> 118"
    "uint tag \<noteq> 117" "uint tag \<noteq> 116"
    by simp_all
  then show ?thesis by arith
qed

lemma readAny_by_tag:
  assumes "at (arr d) (pos d) = Some tag"
  shows "readAny u (Suc fuel) d =
    (if tag = 127 then Some (Inr AUndefined, d\<lparr>pos := pos d + 1\<rparr>)
     else if tag = 126 then Some (Inr ANull, d\<lparr>pos := pos d + 1\<rparr>)
     else if tag = 125 then
       Some (and_then (readVarInt (d\<lparr>pos := pos d + 1\<rparr>)) (\<lambda>x. Inr (AInteger x)))
     else if tag = 124 then
       Some (and_then (readFloat32 (d\<lparr>pos := pos d + 1\<rparr>)) (\<lambda>x. Inr (AFloat32 x)))
     else if tag = 123 then
       Some (and_then (readFloat64 (d\<lparr>pos := pos d + 1\<rparr>)) (\<lambda>x. Inr (AFloat64 x)))
     else if tag = 122 then
       Some (and_then (readBigInt64 (d\<lparr>pos := pos d + 1\<rparr>)) (\<lambda>x. Inr (ABigInt x)))
     else if tag = 121 then Some (Inr (ABoolean False), d\<lparr>pos := pos d + 1\<rparr>)
     else if tag = 120 then Some (Inr (ABoolean True), d\<lparr>pos := pos d + 1\<rparr>)
     else if tag = 119 then
       Some (and_then (readVarString (decode_utf8 u) (d\<lparr>pos := pos d + 1\<rparr>))
                      (\<lambda>x. Inr (AString x)))
     else if tag = 118 then
       (case readVarUint (d\<lparr>pos := pos d + 1\<rparr>) of
          (Inl e, d1) \<Rightarrow> Some (Inl e, d1)
        | (Inr len, d1) \<Rightarrow> readObject_loop u (readAny u fuel) (nat len) (new_object u) d1)
     else if tag = 117 then
       (case readVarUint (d\<lparr>pos := pos d + 1\<rparr>) of
          (Inl e, d1) \<Rightarrow> Some (Inl e, d1)
        | (Inr len, d1) \<Rightarrow> readArray_loop (readAny u fuel) (nat len) [] d1)
     else if tag = 116 then
       Some (and_then (readVarUint8Array (d\<lparr>pos := pos d + 1\<rparr>)) (\<lambda>x. Inr (AUint8Array x)))
     else Some (Inl UnknownTag, d\<lparr>pos := pos d + 1\<rparr>))"
proof -
  consider "tag = 127" | "tag = 126" | "tag = 125" | "tag = 124" | "tag = 123" | "tag = 122"
    | "tag = 121" | "tag = 120" | "tag = 119" | "tag = 118" | "tag = 117" | "tag = 116"
    | "tag \<noteq> 127" "tag \<noteq> 126" "tag \<noteq> 125" "tag \<noteq> 124" "tag \<noteq> 123" "tag \<noteq> 122"
      "tag \<noteq> 121" "tag \<noteq> 120" "tag \<noteq> 119" "tag \<noteq> 118" "tag \<noteq> 117" "tag \<noteq> 116"
    by blast
  then show ?thesis
  proof cases
    case 13
    then have "lookup (readAnyLookupTable u (readAny u fuel)) (Num (127 - uint tag)) = None"
      by (intro lookup_table_out tag_cases)
    with 13 show ?thesis by (simp add: readAny_Suc_tag[OF assms] del: readAny.simps)
  qed (simp_all add: readAny_Suc_tag[OF assms] lookup_table_in del: readAny.simps)
qed

lemma readArray_loop_in_order:
  "readArray_loop rd n xs d =
     (case spec_repeat n rd d of
        None \<Rightarrow> None
      | Some (Inl e, d') \<Rightarrow> Some (Inl e, d')
      | Some (Inr vs, d') \<Rightarrow> Some (Inr (AArray (xs @ vs)), d'))"
  by (induction n arbitrary: xs d) (auto split: option.splits sum.splits prod.splits)

lemma readObject_loop_fold:
  "readObject_loop u rd n obj d = returning AObject (spec_fold n (spec_property u rd) obj d)"
proof (induction n arbitrary: obj d)
  case 0
  show ?case by (simp add: returning_def)
next
  case (Suc n)
  obtain k d1 where k: "readVarString (decode_utf8 u) d = (k, d1)"
    by (cases "readVarString (decode_utf8 u) d")
  show ?case
  proof (cases k)
    case (Inl e)
    with k show ?thesis by (simp add: returning_def spec_property_def spec_entry_def)
  next
    case key: (Inr key)
    show ?thesis
    proof (cases "rd d1")
      case None
      with k key show ?thesis by (simp add: returning_def spec_property_def spec_entry_def)
    next
      case (Some r)
      obtain v d2 where r: "r = (v, d2)" by (cases r)
      show ?thesis
      proof (cases v)
        case (Inl e)
        with k key Some r show ?thesis
          by (simp add: returning_def spec_property_def spec_entry_def)
      next
        case x: (Inr x)
        show ?thesis
        proof (cases "set_property u obj key x")
          case (Inl e)
          with k key Some r x show ?thesis
            by (simp add: returning_def spec_property_def spec_entry_def and_then_def)
        next
          case (Inr obj')
          with k key Some r x Suc.IH[of obj' d2] show ?thesis
            by (simp add: spec_property_def spec_entry_def and_then_def)
        qed
      qed
    qed
  qed
qed

text \<open>
  Where no assignment throws, a record is its entries read in order and then assigned in
  that order.
\<close>

lemma readObject_loop_in_order:
  assumes set: "\<And>obj key v. set_property u obj key v = Inr (put obj key v)"
  shows "readObject_loop u rd n obj d =
     returning (\<lambda>kvs. AObject (fold (\<lambda>(key, v) obj. put obj key v) kvs obj))
       (spec_repeat n (spec_entry (decode_utf8 u) rd) d)"
proof (induction n arbitrary: obj d)
  case 0
  show ?case by (simp add: returning_def)
next
  case (Suc n)
  obtain k d1 where k: "readVarString (decode_utf8 u) d = (k, d1)"
    by (cases "readVarString (decode_utf8 u) d")
  show ?case
  proof (cases k)
    case (Inl e)
    with k show ?thesis by (simp add: returning_def spec_entry_def)
  next
    case key: (Inr key)
    show ?thesis
    proof (cases "rd d1")
      case None
      with k key show ?thesis by (simp add: returning_def spec_entry_def)
    next
      case (Some r)
      obtain v d2 where r: "r = (v, d2)" by (cases r)
      show ?thesis
      proof (cases v)
        case (Inl e)
        with k key Some r show ?thesis by (simp add: returning_def spec_entry_def)
      next
        case x: (Inr x)
        with k key Some r Suc.IH[of "put obj key x" d2] show ?thesis
          by (auto simp: returning_def spec_entry_def set
              split: option.splits sum.splits prod.splits)
      qed
    qed
  qed
qed

lemma snd_and_then_advanced:
  "advanced d (snd r) \<Longrightarrow> and_then r f = (x, d') \<Longrightarrow> advanced d d'"
  using snd_and_then[of r f] by simp

lemma readArray_loop_advanced:
  assumes rd: "\<And>d r d'. rd d = Some (r, d') \<Longrightarrow> advanced d d'"
  shows "readArray_loop rd n xs d = Some (r, d') \<Longrightarrow> advanced d d'"
proof (induction n arbitrary: xs d)
  case 0
  then show ?case by (simp add: advanced_refl)
next
  case (Suc n)
  from Suc.prems obtain v d1 where v: "rd d = Some (v, d1)"
    by (auto split: option.splits)
  then have a: "advanced d d1" by (rule rd)
  show ?case
  proof (cases v)
    case (Inl e)
    with Suc.prems v a show ?thesis by simp
  next
    case (Inr x)
    with Suc.prems v have "readArray_loop rd n (xs @ [x]) d1 = Some (r, d')" by simp
    then have "advanced d1 d'" by (rule Suc.IH)
    with a show ?thesis by (rule advanced_trans)
  qed
qed

lemma readObject_loop_advanced:
  assumes rd: "\<And>d r d'. rd d = Some (r, d') \<Longrightarrow> advanced d d'"
  shows "readObject_loop u rd n obj d = Some (r, d') \<Longrightarrow> advanced d d'"
proof (induction n arbitrary: obj d)
  case 0
  then show ?case by (simp add: advanced_refl)
next
  case (Suc n)
  obtain k d1 where k: "readVarString (decode_utf8 u) d = (k, d1)"
    by (cases "readVarString (decode_utf8 u) d")
  then have a: "advanced d d1" using readVarString_advanced[of d "decode_utf8 u"] by simp
  show ?case
  proof (cases k)
    case (Inl e)
    with Suc.prems k a show ?thesis by simp
  next
    case (Inr key)
    with Suc.prems k obtain v d2 where v: "rd d1 = Some (v, d2)"
      by (auto split: option.splits)
    then have b: "advanced d1 d2" by (rule rd)
    from a b have ab: "advanced d d2" by (rule advanced_trans)
    show ?thesis
    proof (cases v)
      case (Inl e)
      with Suc.prems k Inr v ab show ?thesis by auto
    next
      case x: (Inr x)
      show ?thesis
      proof (cases "set_property u obj key x")
        case (Inl e)
        with Suc.prems k \<open>k = Inr key\<close> v x ab show ?thesis by auto
      next
        case (Inr obj')
        with Suc.prems k \<open>k = Inr key\<close> v x
        have "readObject_loop u rd n obj' d2 = Some (r, d')" by simp
        then have "advanced d2 d'" by (rule Suc.IH)
        with ab show ?thesis by (rule advanced_trans)
      qed
    qed
  qed
qed

lemma index_cases:
  fixes k :: int
  assumes "0 \<le> k" "k < 12"
  obtains "k = 0" | "k = 1" | "k = 2" | "k = 3" | "k = 4" | "k = 5" | "k = 6" | "k = 7"
    | "k = 8" | "k = 9" | "k = 10" | "k = 11"
proof -
  have "k \<in> set [0..11]" using assms by simp
  then have "k = 0 \<or> k = 1 \<or> k = 2 \<or> k = 3 \<or> k = 4 \<or> k = 5 \<or> k = 6 \<or> k = 7
    \<or> k = 8 \<or> k = 9 \<or> k = 10 \<or> k = 11"
    by (simp add: upto.simps)
  then show thesis using that by blast
qed

lemma length_readAnyLookupTable: "length (readAnyLookupTable u rd) = 12"
  by (simp add: readAnyLookupTable_def)

lemma lookup_Some_index:
  "lookup table (Num k) = Some f \<Longrightarrow> 0 \<le> k \<and> k < int (length table)"
  by (simp add: lookup_def split: if_splits)

lemma table_advanced:
  assumes rd: "\<And>d r d'. rd d = Some (r, d') \<Longrightarrow> advanced d d'"
    and f: "lookup (readAnyLookupTable u rd) (Num k) = Some f"
    and r: "f d = Some (r, d')"
  shows "advanced d d'"
proof -
  have "0 \<le> k" "k < 12"
    using lookup_Some_index[OF f] by (simp_all add: length_readAnyLookupTable)
  then show ?thesis
  proof (cases rule: index_cases)
    case 1
    with f r have "d' = d" by (auto simp: lookup_table_in)
    then show ?thesis by (simp add: advanced_refl)
  next
    case 2
    with f r have "d' = d" by (auto simp: lookup_table_in)
    then show ?thesis by (simp add: advanced_refl)
  next
    case 3
    with f r have "and_then (readVarInt d) (\<lambda>x. Inr (AInteger x)) = (r, d')"
      by (auto simp: lookup_table_in)
    then show ?thesis by (rule snd_and_then_advanced[OF readVarInt_advanced])
  next
    case 4
    with f r have "and_then (readFloat32 d) (\<lambda>x. Inr (AFloat32 x)) = (r, d')"
      by (auto simp: lookup_table_in)
    then show ?thesis by (rule snd_and_then_advanced[OF readFloat_advanced(1)])
  next
    case 5
    with f r have "and_then (readFloat64 d) (\<lambda>x. Inr (AFloat64 x)) = (r, d')"
      by (auto simp: lookup_table_in)
    then show ?thesis by (rule snd_and_then_advanced[OF readFloat_advanced(2)])
  next
    case 6
    with f r have "and_then (readBigInt64 d) (\<lambda>x. Inr (ABigInt x)) = (r, d')"
      by (auto simp: lookup_table_in)
    then show ?thesis by (rule snd_and_then_advanced[OF readFloat_advanced(3)])
  next
    case 7
    with f r have "d' = d" by (auto simp: lookup_table_in)
    then show ?thesis by (simp add: advanced_refl)
  next
    case 8
    with f r have "d' = d" by (auto simp: lookup_table_in)
    then show ?thesis by (simp add: advanced_refl)
  next
    case 9
    with f r have "and_then (readVarString (decode_utf8 u) d) (\<lambda>x. Inr (AString x)) = (r, d')"
      by (auto simp: lookup_table_in)
    then show ?thesis by (rule snd_and_then_advanced[OF readVarString_advanced])
  next
    case 10
    obtain n d1 where n: "readVarUint d = (n, d1)" by (cases "readVarUint d")
    then have a: "advanced d d1" using readVarUint_advanced[of d] by simp
    show ?thesis
    proof (cases n)
      case (Inl e)
      with 10 f r n have "d' = d1" by (auto simp: lookup_table_in)
      with a show ?thesis by simp
    next
      case (Inr len)
      with 10 f r n have "readObject_loop u rd (nat len) (new_object u) d1 = Some (r, d')"
        by (auto simp: lookup_table_in)
      then have "advanced d1 d'" using rd by (rule readObject_loop_advanced[rotated])
      with a show ?thesis by (rule advanced_trans)
    qed
  next
    case 11
    obtain n d1 where n: "readVarUint d = (n, d1)" by (cases "readVarUint d")
    then have a: "advanced d d1" using readVarUint_advanced[of d] by simp
    show ?thesis
    proof (cases n)
      case (Inl e)
      with 11 f r n have "d' = d1" by (auto simp: lookup_table_in)
      with a show ?thesis by simp
    next
      case (Inr len)
      with 11 f r n have "readArray_loop rd (nat len) [] d1 = Some (r, d')"
        by (auto simp: lookup_table_in)
      then have "advanced d1 d'" using rd by (rule readArray_loop_advanced[rotated])
      with a show ?thesis by (rule advanced_trans)
    qed
  next
    case 12
    with f r have "and_then (readVarUint8Array d) (\<lambda>x. Inr (AUint8Array x)) = (r, d')"
      by (auto simp: lookup_table_in)
    then show ?thesis by (rule snd_and_then_advanced[OF readVarUint8Array_advanced])
  qed
qed

lemma readAny_advanced: "readAny u fuel d = Some (r, d') \<Longrightarrow> advanced d d'"
proof (induction fuel arbitrary: d r d')
  case 0
  then show ?case by simp
next
  case (Suc fuel)
  have step: "advanced d (d\<lparr>pos := pos d + 1\<rparr>)" by (simp add: advanced_def)
  show ?case
  proof (cases "at (arr d) (pos d)")
    case None
    have "readAny u (Suc fuel) d = Some (Inl UnknownTag, d\<lparr>pos := pos d + 1\<rparr>)"
      using None by (rule readAny_Suc_absent)
    with Suc.prems step show ?thesis by simp
  next
    case (Some tag)
    show ?thesis
    proof (cases "lookup (readAnyLookupTable u (readAny u fuel)) (Num (127 - uint tag))")
      case None
      have "readAny u (Suc fuel) d = Some (Inl UnknownTag, d\<lparr>pos := pos d + 1\<rparr>)"
        unfolding readAny_Suc_tag[OF Some] None by simp
      with Suc.prems step show ?thesis by simp
    next
      case f: (Some f)
      have "readAny u (Suc fuel) d = f (d\<lparr>pos := pos d + 1\<rparr>)"
        unfolding readAny_Suc_tag[OF Some] f by simp
      with Suc.prems have fd: "f (d\<lparr>pos := pos d + 1\<rparr>) = Some (r, d')"
        by simp
      have "advanced (d\<lparr>pos := pos d + 1\<rparr>) d'"
      proof (rule table_advanced[where rd = "readAny u fuel" and u = u, OF _ f fd])
        fix d r d' assume "readAny u fuel d = Some (r, d')"
        then show "advanced d d'" by (rule Suc.IH)
      qed
      with step show ?thesis by (rule advanced_trans)
    qed
  qed
qed

text \<open>With more fuel than bytes ahead of the cursor, \<open>readAny\<close> comes to an end.\<close>

lemma enough_fuel_advanced: "advanced d d' \<Longrightarrow> enough_fuel d' \<le> enough_fuel d"
  by (auto simp: advanced_def enough_fuel_def)

lemma readArray_loop_total:
  assumes adv: "\<And>d r d'. rd d = Some (r, d') \<Longrightarrow> advanced d d'"
    and tot: "\<And>d'. advanced d0 d' \<Longrightarrow> rd d' \<noteq> None"
  shows "advanced d0 d \<Longrightarrow> readArray_loop rd n xs d \<noteq> None"
proof (induction n arbitrary: xs d)
  case 0
  then show ?case by simp
next
  case (Suc n)
  from tot[OF Suc.prems] obtain v d1 where v: "rd d = Some (v, d1)" by auto
  then have "advanced d d1" by (rule adv)
  with Suc.prems have a: "advanced d0 d1" by (rule advanced_trans)
  show ?case
  proof (cases v)
    case (Inl e)
    with v show ?thesis by simp
  next
    case (Inr x)
    with v Suc.IH[OF a] show ?thesis by simp
  qed
qed

lemma readObject_loop_total:
  assumes adv: "\<And>d r d'. rd d = Some (r, d') \<Longrightarrow> advanced d d'"
    and tot: "\<And>d'. advanced d0 d' \<Longrightarrow> rd d' \<noteq> None"
  shows "advanced d0 d \<Longrightarrow> readObject_loop u rd n obj d \<noteq> None"
proof (induction n arbitrary: obj d)
  case 0
  then show ?case by simp
next
  case (Suc n)
  obtain k d1 where k: "readVarString (decode_utf8 u) d = (k, d1)"
    by (cases "readVarString (decode_utf8 u) d")
  then have "advanced d d1" using readVarString_advanced[of d "decode_utf8 u"] by simp
  with Suc.prems have a: "advanced d0 d1" by (rule advanced_trans)
  show ?case
  proof (cases k)
    case (Inl e)
    with k show ?thesis by simp
  next
    case (Inr key)
    from tot[OF a] obtain v d2 where v: "rd d1 = Some (v, d2)" by auto
    then have "advanced d1 d2" by (rule adv)
    with a have b: "advanced d0 d2" by (rule advanced_trans)
    show ?thesis
    proof (cases v)
      case (Inl e)
      with k \<open>k = Inr key\<close> v show ?thesis by simp
    next
      case x: (Inr x)
      show ?thesis
      proof (cases "set_property u obj key x")
        case (Inl e)
        with k \<open>k = Inr key\<close> v x show ?thesis by simp
      next
        case (Inr obj')
        with k \<open>k = Inr key\<close> v x Suc.IH[OF b, of obj'] show ?thesis by simp
      qed
    qed
  qed
qed

lemma table_total:
  assumes adv: "\<And>d r d'. rd d = Some (r, d') \<Longrightarrow> advanced d d'"
    and tot: "\<And>d'. advanced d d' \<Longrightarrow> rd d' \<noteq> None"
    and f: "lookup (readAnyLookupTable u rd) (Num k) = Some f"
  shows "f d \<noteq> None"
proof -
  have "0 \<le> k" "k < 12"
    using lookup_Some_index[OF f] by (simp_all add: length_readAnyLookupTable)
  then show ?thesis
  proof (cases rule: index_cases)
    case 10
    obtain n d1 where n: "readVarUint d = (n, d1)" by (cases "readVarUint d")
    then have a: "advanced d d1" using readVarUint_advanced[of d] by simp
    have "readObject_loop u rd (nat len) (new_object u) d1 \<noteq> None" for len
      using adv _ advanced_refl
    proof (rule readObject_loop_total)
      fix d' assume "advanced d1 d'"
      with a have "advanced d d'" by (rule advanced_trans)
      then show "rd d' \<noteq> None" by (rule tot)
    qed
    with 10 f n show ?thesis by (cases n) (auto simp: lookup_table_in)
  next
    case 11
    obtain n d1 where n: "readVarUint d = (n, d1)" by (cases "readVarUint d")
    then have a: "advanced d d1" using readVarUint_advanced[of d] by simp
    have "readArray_loop rd (nat len) [] d1 \<noteq> None" for len
      using adv _ advanced_refl
    proof (rule readArray_loop_total)
      fix d' assume "advanced d1 d'"
      with a have "advanced d d'" by (rule advanced_trans)
      then show "rd d' \<noteq> None" by (rule tot)
    qed
    with 11 f n show ?thesis by (cases n) (auto simp: lookup_table_in)
  qed (use f in \<open>auto simp: lookup_table_in\<close>)
qed

lemma readAny_enough_fuel: "enough_fuel d \<le> fuel \<Longrightarrow> readAny u fuel d \<noteq> None"
proof (induction fuel arbitrary: d)
  case 0
  then show ?case by (simp add: enough_fuel_def)
next
  case (Suc fuel)
  let ?d1 = "d\<lparr>pos := pos d + 1\<rparr>"
  show ?case
  proof (cases "at (arr d) (pos d)")
    case None
    then show ?thesis by (simp add: readAny_Suc_absent del: readAny.simps)
  next
    case (Some tag)
    then have "0 \<le> pos d" "pos d < length_of (arr d)"
      by (simp_all add: at_def split: if_splits)
    with Suc.prems have less: "enough_fuel ?d1 \<le> fuel"
      by (simp add: enough_fuel_def)
    show ?thesis
    proof (cases "lookup (readAnyLookupTable u (readAny u fuel)) (Num (127 - uint tag))")
      case None
      show ?thesis unfolding readAny_Suc_tag[OF Some] None by simp
    next
      case f: (Some f)
      have "f ?d1 \<noteq> None"
      proof (rule table_total[where rd = "readAny u fuel" and u = u, OF _ _ f])
        fix d r d' assume "readAny u fuel d = Some (r, d')"
        then show "advanced d d'" by (rule readAny_advanced)
      next
        fix d' assume "advanced ?d1 d'"
        then have "enough_fuel d' \<le> fuel"
          using enough_fuel_advanced[of ?d1 d'] less by simp
        then show "readAny u fuel d' \<noteq> None" by (rule Suc.IH)
      qed
      then show ?thesis unfolding readAny_Suc_tag[OF Some] f by simp
    qed
  qed
qed

text \<open>More fuel does not change what \<open>readAny\<close> returns.\<close>

lemma readArray_loop_mono:
  assumes rd: "\<And>d r. rd d = Some r \<Longrightarrow> rd' d = Some r"
  shows "readArray_loop rd n xs d = Some r \<Longrightarrow> readArray_loop rd' n xs d = Some r"
proof (induction n arbitrary: xs d)
  case 0
  then show ?case by simp
next
  case (Suc n)
  from Suc.prems obtain v d1 where v: "rd d = Some (v, d1)"
    by (auto split: option.splits)
  then have v': "rd' d = Some (v, d1)" by (rule rd)
  show ?case
  proof (cases v)
    case (Inl e)
    with Suc.prems v v' show ?thesis by auto
  next
    case (Inr x)
    with Suc.prems v have "readArray_loop rd n (xs @ [x]) d1 = Some r" by simp
    then have "readArray_loop rd' n (xs @ [x]) d1 = Some r" by (rule Suc.IH)
    with Inr v' show ?thesis by simp
  qed
qed

lemma readObject_loop_mono:
  assumes rd: "\<And>d r. rd d = Some r \<Longrightarrow> rd' d = Some r"
  shows "readObject_loop u rd n obj d = Some r \<Longrightarrow> readObject_loop u rd' n obj d = Some r"
proof (induction n arbitrary: obj d)
  case 0
  then show ?case by simp
next
  case (Suc n)
  obtain k d1 where k: "readVarString (decode_utf8 u) d = (k, d1)"
    by (cases "readVarString (decode_utf8 u) d")
  show ?case
  proof (cases k)
    case (Inl e)
    with Suc.prems k show ?thesis by simp
  next
    case (Inr key)
    with Suc.prems k obtain v d2 where v: "rd d1 = Some (v, d2)"
      by (auto split: option.splits)
    then have v': "rd' d1 = Some (v, d2)" by (rule rd)
    show ?thesis
    proof (cases v)
      case (Inl e)
      with Suc.prems k \<open>k = Inr key\<close> v v' show ?thesis by auto
    next
      case x: (Inr x)
      show ?thesis
      proof (cases "set_property u obj key x")
        case (Inl e)
        with Suc.prems k \<open>k = Inr key\<close> v v' x show ?thesis by auto
      next
        case (Inr obj')
        with Suc.prems k \<open>k = Inr key\<close> v x
        have "readObject_loop u rd n obj' d2 = Some r" by simp
        then have "readObject_loop u rd' n obj' d2 = Some r" by (rule Suc.IH)
        with Inr x k \<open>k = Inr key\<close> v' show ?thesis by simp
      qed
    qed
  qed
qed

lemma table_mono:
  assumes rd: "\<And>d r. rd d = Some r \<Longrightarrow> rd' d = Some r"
    and f: "lookup (readAnyLookupTable u rd) (Num k) = Some f"
    and r: "f d = Some r"
  shows "\<exists>f'. lookup (readAnyLookupTable u rd') (Num k) = Some f' \<and> f' d = Some r"
proof -
  have "0 \<le> k" "k < 12"
    using lookup_Some_index[OF f] by (simp_all add: length_readAnyLookupTable)
  then show ?thesis
  proof (cases rule: index_cases)
    case 10
    obtain n d1 where n: "readVarUint d = (n, d1)" by (cases "readVarUint d")
    show ?thesis
    proof (cases n)
      case (Inl e)
      with 10 f r n show ?thesis by (auto simp: lookup_table_in)
    next
      case (Inr len)
      with 10 f r n have "readObject_loop u rd (nat len) (new_object u) d1 = Some r"
        by (auto simp: lookup_table_in)
      then have "readObject_loop u rd' (nat len) (new_object u) d1 = Some r"
        using rd by (rule readObject_loop_mono[rotated])
      with 10 n Inr show ?thesis by (simp add: lookup_table_in)
    qed
  next
    case 11
    obtain n d1 where n: "readVarUint d = (n, d1)" by (cases "readVarUint d")
    show ?thesis
    proof (cases n)
      case (Inl e)
      with 11 f r n show ?thesis by (auto simp: lookup_table_in)
    next
      case (Inr len)
      with 11 f r n have "readArray_loop rd (nat len) [] d1 = Some r"
        by (auto simp: lookup_table_in)
      then have "readArray_loop rd' (nat len) [] d1 = Some r"
        using rd by (rule readArray_loop_mono[rotated])
      with 11 n Inr show ?thesis by (simp add: lookup_table_in)
    qed
  qed (use f r in \<open>auto simp: lookup_table_in\<close>)
qed

lemma readAny_more_fuel: "readAny u fuel d = Some r \<Longrightarrow> readAny u (Suc fuel) d = Some r"
proof (induction fuel arbitrary: d r)
  case 0
  then show ?case by simp
next
  case (Suc fuel)
  show ?case
  proof (cases "at (arr d) (pos d)")
    case None
    from Suc.prems show ?thesis
      unfolding readAny_Suc_absent[OF None, of u fuel] readAny_Suc_absent[OF None, of u "Suc fuel"] .
  next
    case (Some tag)
    show ?thesis
    proof (cases "lookup (readAnyLookupTable u (readAny u fuel)) (Num (127 - uint tag))")
      case None
      then have "127 - uint tag < 0 \<or> 12 \<le> 127 - uint tag"
        by (auto simp: lookup_def length_readAnyLookupTable split: if_splits)
      then have "lookup (readAnyLookupTable u (readAny u (Suc fuel))) (Num (127 - uint tag)) = None"
        by (rule lookup_table_out)
      with Suc.prems None show ?thesis
        unfolding readAny_Suc_tag[OF Some, of u fuel] readAny_Suc_tag[OF Some, of u "Suc fuel"]
        by simp
    next
      case f: (Some f)
      with Suc.prems have fd: "f (d\<lparr>pos := pos d + 1\<rparr>) = Some r"
        unfolding readAny_Suc_tag[OF Some, of u fuel] by simp
      have "\<exists>f'. lookup (readAnyLookupTable u (readAny u (Suc fuel))) (Num (127 - uint tag)) = Some f'
          \<and> f' (d\<lparr>pos := pos d + 1\<rparr>) = Some r"
      proof (rule table_mono[where rd = "readAny u fuel", OF _ f fd])
        fix d r assume "readAny u fuel d = Some r"
        then show "readAny u (Suc fuel) d = Some r" by (rule Suc.IH)
      qed
      then obtain f' where
        "lookup (readAnyLookupTable u (readAny u (Suc fuel))) (Num (127 - uint tag)) = Some f'"
        "f' (d\<lparr>pos := pos d + 1\<rparr>) = Some r" by blast
      then show ?thesis
        unfolding readAny_Suc_tag[OF Some, of u "Suc fuel"] by simp
    qed
  qed
qed

lemma readAny_fuel_irrelevant:
  assumes "enough_fuel d \<le> fuel"
  shows "readAny u fuel d = readAny u (enough_fuel d) d"
proof -
  obtain r where r: "readAny u (enough_fuel d) d = Some r"
    using readAny_enough_fuel[of d "enough_fuel d" u] by auto
  have "readAny u (enough_fuel d + k) d = Some r" for k
    by (induction k) (simp_all add: r readAny_more_fuel del: readAny.simps)
  from this[of "fuel - enough_fuel d"] assms r show ?thesis by simp
qed

section \<open>Tagged values: the dispatch\<close>

text \<open>
  C3. \<open>readAny\<close> reads the tag byte and calls the entry \<open>127 - tag\<close> of its table: the
  tags 127 down to 116 give \<open>undefined\<close>, \<open>null\<close>, a signed integer, a 32-bit float, a
  64-bit float, a 64-bit integer, \<open>false\<close>, \<open>true\<close>, a string, a record, an array and a
  byte array. A record is a count read by \<open>readVarUint\<close> and that many entries of a
  string and a value, each read and then assigned to the record, in order; where no
  assignment throws, it is the entries read in order and then assigned in that order. An
  array is a count and that many values, read in order and kept in that order. Every
  other tag byte, 115 among them, throws \<open>UnknownTag\<close> with the tag byte consumed. With
  more fuel than there are bytes ahead, the model of \<open>readAny\<close> has a result.
\<close>

theorem readAny_dispatch:
  assumes "at (arr d) (pos d) = Some tag"
  shows "readAny u (Suc fuel) d =
    (if tag = 127 then Some (Inr AUndefined, d\<lparr>pos := pos d + 1\<rparr>)
     else if tag = 126 then Some (Inr ANull, d\<lparr>pos := pos d + 1\<rparr>)
     else if tag = 125 then
       Some (and_then (readVarInt (d\<lparr>pos := pos d + 1\<rparr>)) (\<lambda>x. Inr (AInteger x)))
     else if tag = 124 then
       Some (and_then (readFloat32 (d\<lparr>pos := pos d + 1\<rparr>)) (\<lambda>x. Inr (AFloat32 x)))
     else if tag = 123 then
       Some (and_then (readFloat64 (d\<lparr>pos := pos d + 1\<rparr>)) (\<lambda>x. Inr (AFloat64 x)))
     else if tag = 122 then
       Some (and_then (readBigInt64 (d\<lparr>pos := pos d + 1\<rparr>)) (\<lambda>x. Inr (ABigInt x)))
     else if tag = 121 then Some (Inr (ABoolean False), d\<lparr>pos := pos d + 1\<rparr>)
     else if tag = 120 then Some (Inr (ABoolean True), d\<lparr>pos := pos d + 1\<rparr>)
     else if tag = 119 then
       Some (and_then (readVarString (decode_utf8 u) (d\<lparr>pos := pos d + 1\<rparr>))
                      (\<lambda>x. Inr (AString x)))
     else if tag = 118 then
       (case readVarUint (d\<lparr>pos := pos d + 1\<rparr>) of
          (Inl e, d1) \<Rightarrow> Some (Inl e, d1)
        | (Inr len, d1) \<Rightarrow>
            returning AObject
              (spec_fold (nat len) (spec_property u (readAny u fuel)) (new_object u) d1))
     else if tag = 117 then
       (case readVarUint (d\<lparr>pos := pos d + 1\<rparr>) of
          (Inl e, d1) \<Rightarrow> Some (Inl e, d1)
        | (Inr len, d1) \<Rightarrow> returning AArray (spec_repeat (nat len) (readAny u fuel) d1))
     else if tag = 116 then
       Some (and_then (readVarUint8Array (d\<lparr>pos := pos d + 1\<rparr>)) (\<lambda>x. Inr (AUint8Array x)))
     else Some (Inl UnknownTag, d\<lparr>pos := pos d + 1\<rparr>))
   \<and> (tag = 115 \<longrightarrow> readAny u (Suc fuel) d = Some (Inl UnknownTag, d\<lparr>pos := pos d + 1\<rparr>))
   \<and> (tag = 118 \<and> (\<forall>obj key v. set_property u obj key v = Inr (put obj key v)) \<longrightarrow>
        readAny u (Suc fuel) d =
          (case readVarUint (d\<lparr>pos := pos d + 1\<rparr>) of
             (Inl e, d1) \<Rightarrow> Some (Inl e, d1)
           | (Inr len, d1) \<Rightarrow>
               returning (\<lambda>kvs. AObject (fold (\<lambda>(key, v) obj. put obj key v) kvs (new_object u)))
                 (spec_repeat (nat len) (spec_entry (decode_utf8 u) (readAny u fuel)) d1)))
   \<and> (enough_fuel d \<le> Suc fuel \<longrightarrow> readAny u (Suc fuel) d \<noteq> None)"
proof -
  have arr: "readArray_loop rd n [] d1 = returning AArray (spec_repeat n rd d1)"
    for rd :: "('a, 'b) reader" and n d1
    by (auto simp: readArray_loop_in_order returning_def split: option.splits sum.splits)
  note t = readAny_by_tag[OF assms, of u fuel]
  note t1 = t[unfolded arr readObject_loop_fold]
  have "readAny u (Suc fuel) d = Some (Inl UnknownTag, d\<lparr>pos := pos d + 1\<rparr>)" if "tag = 115"
    unfolding t using that by simp
  moreover have "readAny u (Suc fuel) d =
          (case readVarUint (d\<lparr>pos := pos d + 1\<rparr>) of
             (Inl e, d1) \<Rightarrow> Some (Inl e, d1)
           | (Inr len, d1) \<Rightarrow>
               returning (\<lambda>kvs. AObject (fold (\<lambda>(key, v) obj. put obj key v) kvs (new_object u)))
                 (spec_repeat (nat len) (spec_entry (decode_utf8 u) (readAny u fuel)) d1))"
    if "tag = 118" and "\<forall>obj key v. set_property u obj key v = Inr (put obj key v)"
  proof -
    have "readObject_loop u rd n obj d1 =
        returning (\<lambda>kvs. AObject (fold (\<lambda>(key, v) obj. put obj key v) kvs obj))
          (spec_repeat n (spec_entry (decode_utf8 u) rd) d1)" for rd n obj d1
      using that(2) by (intro readObject_loop_in_order) simp
    then show ?thesis unfolding t using that(1) by (simp split: prod.splits sum.splits)
  qed
  moreover have "readAny u (Suc fuel) d \<noteq> None" if "enough_fuel d \<le> Suc fuel"
    using that by (rule readAny_enough_fuel)
  ultimately show ?thesis using t1 by blast
qed

theorem readAny_dispatch_witness:
  "readAny plain_host 3
     (createDecoder (view_of [117, 3, 125, 0x41, 118, 1, 1, 0x61, 120, 119, 2, 0x68, 0x69])) =
     Some (Inr (AArray [AInteger (- 1), AObject (Plain [(''a'', ABoolean True)]), AString ''hi'']),
           createDecoder (view_of [117, 3, 125, 0x41, 118, 1, 1, 0x61, 120, 119, 2, 0x68, 0x69])
             \<lparr>pos := 13\<rparr>)
   \<and> readAny plain_host 1 (createDecoder (view_of [115])) =
     Some (Inl UnknownTag, createDecoder (view_of [115])\<lparr>pos := 1\<rparr>)
   \<and> readAny plain_host 2 (createDecoder (view_of [118, 2, 1, 0x62, 120, 1, 0x61, 121])) =
     Some (Inr (AObject (Plain [(''b'', ABoolean True), (''a'', ABoolean False)])),
           createDecoder (view_of [118, 2, 1, 0x62, 120, 1, 0x61, 121])\<lparr>pos := 8\<rparr>)
   \<and> readAny plain_host 2 (createDecoder (view_of [115])) \<noteq> None"
proof -
  let ?d = "createDecoder (view_of [117, 3, 125, 0x41, 118, 1, 1, 0x61, 120, 119, 2, 0x68, 0x69])"
  let ?o = "createDecoder (view_of [118, 2, 1, 0x62, 120, 1, 0x61, 121])"
  let ?put = "\<lambda>obj key v. case obj of Plain kvs \<Rightarrow> Plain (AList.update key v kvs)"
  have a: "at (arr ?d) (pos ?d) = Some 117"
    by (simp add: createDecoder_def view_of_def at_def length_of_def)
  have b: "at (arr (createDecoder (view_of [115]))) (pos (createDecoder (view_of [115]))) = Some 115"
    by (simp add: createDecoder_def view_of_def at_def length_of_def)
  have c: "at (arr ?o) (pos ?o) = Some 118"
    by (simp add: createDecoder_def view_of_def at_def length_of_def)
  have n: "readVarUint (?d\<lparr>pos := pos ?d + 1\<rparr>) = (Inr 3, ?d\<lparr>pos := 2\<rparr>)"
    by code_simp
  have r: "returning AArray (spec_repeat (nat 3) (readAny plain_host 2) (?d\<lparr>pos := 2\<rparr>)) =
     Some (Inr (AArray [AInteger (- 1), AObject (Plain [(''a'', ABoolean True)]), AString ''hi'']),
           ?d\<lparr>pos := 13\<rparr>)"
    by code_simp
  have 1: "readAny plain_host (Suc 2) ?d =
     Some (Inr (AArray [AInteger (- 1), AObject (Plain [(''a'', ABoolean True)]), AString ''hi'']),
           ?d\<lparr>pos := 13\<rparr>)"
    unfolding readAny_dispatch[OF a, THEN conjunct1] n using r by simp
  have 2: "readAny plain_host (Suc 0) (createDecoder (view_of [115])) =
     Some (Inl UnknownTag, createDecoder (view_of [115])\<lparr>pos := 1\<rparr>)"
    using readAny_dispatch[OF b, THEN conjunct2, THEN conjunct1, of plain_host 0]
    by (simp add: createDecoder_def)
  have s: "\<forall>obj key v. set_property plain_host obj key v = Inr (?put obj key v)"
    by (simp add: plain_host_def plain_set_def split: plain.splits)
  have m: "readVarUint (?o\<lparr>pos := pos ?o + 1\<rparr>) = (Inr 2, ?o\<lparr>pos := 2\<rparr>)"
    by code_simp
  have q: "returning (\<lambda>kvs. AObject (fold (\<lambda>(key, v) obj. ?put obj key v) kvs (new_object plain_host))
                       :: (string, string plain) any)
       (spec_repeat (nat 2) (spec_entry (decode_utf8 plain_host) (readAny plain_host 1))
          (?o\<lparr>pos := 2\<rparr>)) =
     Some (Inr (AObject (Plain [(''b'', ABoolean True), (''a'', ABoolean False)])), ?o\<lparr>pos := 8\<rparr>)"
    by code_simp
  have 3: "readAny plain_host (Suc 1) ?o =
     Some (Inr (AObject (Plain [(''b'', ABoolean True), (''a'', ABoolean False)])), ?o\<lparr>pos := 8\<rparr>)"
    using readAny_dispatch[OF c, THEN conjunct2, THEN conjunct2, THEN conjunct1,
        of plain_host ?put 1] s
    unfolding m using q by simp
  have 4: "readAny plain_host (Suc 1) (createDecoder (view_of [115])) \<noteq> None"
    using readAny_dispatch[OF b, THEN conjunct2, THEN conjunct2, THEN conjunct2, of 1 plain_host]
    by (simp add: enough_fuel_def createDecoder_def view_of_def length_of_def)
  have "(3::nat) = Suc 2" "(1::nat) = Suc 0" "(2::nat) = Suc 1" by simp_all
  with 1 2 3 4 show ?thesis by metis
qed

section \<open>The position of the cursor\<close>

lemma run_op_arr: "arr (run_op u d op) = arr d"
proof (cases op)
  case ReadAny
  show ?thesis
  proof (cases "readAny u (enough_fuel d) d")
    case None
    with ReadAny show ?thesis by simp
  next
    case (Some r)
    then show ?thesis using ReadAny readAny_advanced[of u "enough_fuel d" d "fst r" "snd r"]
      by (auto simp: advanced_def split: prod.splits)
  qed
qed (use readVarUint_advanced[of d] readVarInt_advanced[of d] peekVarUint_advanced[of d]
      peekVarInt_advanced[of d] readUint8Array_advanced[of d] readVarUint8Array_advanced[of d]
      readVarString_advanced[of d "decode_utf8 u"]
      peekVarString_advanced[of d "decode_utf8 u"] readFloat_advanced[of d]
    in \<open>simp_all add: advanced_def skip8_def readUint8_def readUint16_def readUint32_def
      readTailAsUint8Array_def clone_def createDecoder_def Let_def\<close>)

lemma run_op_pos:
  assumes "\<And>p. op = Clone (Some p) \<Longrightarrow> pos d \<le> p"
  shows "pos d \<le> pos (run_op u d op)"
proof (cases op)
  case ReadAny
  show ?thesis
  proof (cases "readAny u (enough_fuel d) d")
    case None
    with ReadAny show ?thesis by simp
  next
    case (Some r)
    then show ?thesis using ReadAny readAny_advanced[of u "enough_fuel d" d "fst r" "snd r"]
      by (auto simp: advanced_def split: prod.splits)
  qed
next
  case (Clone newPos)
  with assms show ?thesis by (cases newPos) (simp_all add: clone_def createDecoder_def)
qed (use readVarUint_advanced[of d] readVarInt_advanced[of d] peekVarUint_advanced[of d]
      peekVarInt_advanced[of d] readUint8Array_advanced[of d] readVarUint8Array_advanced[of d]
      readVarString_advanced[of d "decode_utf8 u"]
      peekVarString_advanced[of d "decode_utf8 u"] readFloat_advanced[of d]
    in \<open>simp_all add: advanced_def skip8_def readUint8_def readUint16_def readUint32_def
      readTailAsUint8Array_def Let_def\<close>)

lemma run_op_nonneg:
  assumes "0 \<le> pos d" and "\<And>p. op = Clone (Some p) \<Longrightarrow> 0 \<le> p"
  shows "0 \<le> pos (run_op u d op)"
proof (cases "\<exists>p. op = Clone (Some p)")
  case True
  then obtain p where "op = Clone (Some p)" by blast
  with assms(2) show ?thesis by (simp add: clone_def createDecoder_def)
next
  case False
  then have "pos d \<le> pos (run_op u d op)" by (intro run_op_pos) blast
  with assms(1) show ?thesis by simp
qed

lemma run_ops_invariant:
  assumes "0 \<le> pos d" and "\<forall>p. Clone (Some p) \<in> set ops \<longrightarrow> 0 \<le> p"
  shows "arr (run_ops u d ops) = arr d \<and> 0 \<le> pos (run_ops u d ops)"
  using assms
proof (induction ops arbitrary: d)
  case Nil
  then show ?case by (simp add: run_ops_def)
next
  case (Cons op ops)
  have "0 \<le> pos (run_op u d op)"
    using Cons.prems by (intro run_op_nonneg) simp_all
  then have "arr (run_ops u (run_op u d op) ops) = arr (run_op u d op)
      \<and> 0 \<le> pos (run_ops u (run_op u d op) ops)"
    using Cons.prems by (intro Cons.IH) simp_all
  then show ?case by (simp add: run_ops_def run_op_arr)
qed

lemma readVarUint_loop_within:
  "fst (readVarUint_loop num len d) = Inr v \<Longrightarrow>
   pos (snd (readVarUint_loop num len d)) \<le> length_of (arr d)"
proof (induction num len d rule: readVarUint_loop.induct)
  case (1 num len d)
  let ?r = "at (arr d) (pos d)"
  show ?case
  proof (cases "js_less ?r (uint BIT8)")
    case True
    then have "pos d < length_of (arr d)"
      by (auto simp: js_less_def at_def split: option.splits if_splits)
    moreover have "snd (readVarUint_loop num len d) = d\<lparr>pos := pos d + 1\<rparr>"
      using True by (subst readVarUint_loop.simps) simp
    ultimately show ?thesis by simp
  next
    case False
    show ?thesis
    proof (cases "len + 7 > 35")
      case True
      with False have "readVarUint_loop num len d = (Inl IntegerOutOfRange, d\<lparr>pos := pos d + 1\<rparr>)"
        by (intro readVarUint_loop_throw)
      with "1.prems" show ?thesis by simp
    next
      case noth: False
      with False have s: "readVarUint_loop num len d =
         readVarUint_loop (num OR shl (ToInt32 ?r AND BITS7) len) (len + 7) (d\<lparr>pos := pos d + 1\<rparr>)"
        by (intro readVarUint_loop_step) simp_all
      from "1.IH"[OF False noth] "1.prems" show ?thesis unfolding s by simp
    qed
  qed
qed

text \<open>
  C9, as the specification states it, fails: \<open>skip8\<close> on the decoder of an empty array
  leaves the position at 1, beyond the length 0.
\<close>

theorem position_beyond_length_counterexample:
  "pos (snd (skip8 (createDecoder (view_of [])))) = 1
   \<and> length_of (arr (snd (skip8 (createDecoder (view_of []))))) = 0"
  by code_simp

text \<open>
  C9, amended. The position is 0 on construction. After any sequence of operations on a
  new decoder, where a clone is given no position or one that is not negative, the
  position is not negative and the array is the one the decoder was made of. The upper
  bound is not kept: \<open>skip8\<close>, \<open>readUint8\<close>, \<open>readUint16\<close> and \<open>readUint32\<close> leave the
  position within the array exactly when 1, 1, 2 and 4 bytes were left, and a
  \<open>readVarUint\<close> that returns leaves it within the array.
\<close>

theorem position_invariant:
  "pos (createDecoder a) = 0
   \<and> ((\<forall>p. Clone (Some p) \<in> set ops \<longrightarrow> 0 \<le> p) \<longrightarrow>
        arr (run_ops u (createDecoder a) ops) = a \<and> 0 \<le> pos (run_ops u (createDecoder a) ops))
   \<and> (pos (snd (skip8 d)) \<le> length_of (arr (snd (skip8 d)))) = (pos d + 1 \<le> length_of (arr d))
   \<and> (pos (snd (readUint8 d)) \<le> length_of (arr (snd (readUint8 d))))
        = (pos d + 1 \<le> length_of (arr d))
   \<and> (pos (snd (readUint16 d)) \<le> length_of (arr (snd (readUint16 d))))
        = (pos d + 2 \<le> length_of (arr d))
   \<and> (pos (snd (readUint32 d)) \<le> length_of (arr (snd (readUint32 d))))
        = (pos d + 4 \<le> length_of (arr d))
   \<and> (readVarUint d = (Inr v, d') \<longrightarrow> pos d' \<le> length_of (arr d'))"
proof -
  have 1: "arr (run_ops u (createDecoder a) ops) = a \<and> 0 \<le> pos (run_ops u (createDecoder a) ops)"
    if "\<forall>p. Clone (Some p) \<in> set ops \<longrightarrow> 0 \<le> p"
    using run_ops_invariant[of "createDecoder a" ops u] that by (simp add: createDecoder_def)
  have 2: "pos d' \<le> length_of (arr d')" if "readVarUint d = (Inr v, d')"
    using readVarUint_loop_within[of 0 0 d v] readVarUint_advanced[of d] that
    by (simp add: readVarUint_def advanced_def)
  from 1 2 show ?thesis
    by (simp add: createDecoder_def skip8_def readUint8_def readUint16_def readUint32_def Let_def)
qed

theorem position_invariant_witness:
  "0 \<le> pos (run_ops plain_host (createDecoder (view_of [0x02, 0x68, 0x69, 117, 1, 120]))
            [PeekVarString, ReadVarString, Clone None, ReadAny, Clone (Some 1), ReadUint32,
             ReadUint16, Skip8, PeekVarUint])
   \<and> pos (snd (readVarUint (createDecoder (view_of [0x85, 0x01])))) \<le> 2"
proof -
  have r: "readVarUint (createDecoder (view_of [0x85, 0x01])) =
      (Inr 133, createDecoder (view_of [0x85, 0x01])\<lparr>pos := 2\<rparr>)"
    by code_simp
  have a: "0 \<le> pos (run_ops plain_host (createDecoder (view_of [0x02, 0x68, 0x69, 117, 1, 120]))
            [PeekVarString, ReadVarString, Clone None, ReadAny, Clone (Some 1), ReadUint32,
             ReadUint16, Skip8, PeekVarUint])"
    using position_invariant[THEN conjunct2, THEN conjunct1,
        of "[PeekVarString, ReadVarString, Clone None, ReadAny, Clone (Some 1), ReadUint32,
             ReadUint16, Skip8, PeekVarUint]" plain_host "view_of [0x02, 0x68, 0x69, 117, 1, 120]"]
    by simp
  have b: "pos (createDecoder (view_of [0x85, 0x01])\<lparr>pos := 2\<rparr>)
      \<le> length_of (arr (createDecoder (view_of [0x85, 0x01])\<lparr>pos := 2\<rparr>))"
    using position_invariant[THEN conjunct2, THEN conjunct2, THEN conjunct2, THEN conjunct2,
        THEN conjunct2, THEN conjunct2, THEN mp, OF r] .
  have b': "pos (snd (readVarUint (createDecoder (view_of [0x85, 0x01])))) \<le> 2"
    unfolding r using b by (simp add: createDecoder_def view_of_def length_of_def)
  from a b' show ?thesis by simp
qed

end
